theory Spec2Isabelle
  imports Complex_Main
begin

section \<open>JavaScript values used by the table column resize utilities\<close>

text \<open>
  The module \<^verbatim>\<open>table/tablecolumnresize/utils\<close> computes with JavaScript numbers and
  strings.  A number is modelled as a finite value, one of the two infinities, or NaN.
  Finite values are exact rationals: the arithmetic below is the exact arithmetic that
  the fixed-point rounding of \<^verbatim>\<open>toPrecision\<close> is written for, and the rounding of
  binary64 results to 53 significant bits is not part of the model.  The special values
  are kept, because the code produces them: a width that does not parse is NaN, and a
  division by a zero total is an infinity or NaN.  The sign of zero is not modelled; every
  divisor in the module is a power of ten, a positive count, or a result of
  \<^verbatim>\<open>sumArray\<close>, whose fold starts from \<^verbatim>\<open>+0\<close> and therefore never yields
  \<^verbatim>\<open>-0\<close>.

  A binary64 product, quotient or sum differs from the exact one by a relative error of
  at most \<open>2 ^ -53\<close> for each operation, and overflows beyond about \<open>1.8 * 10 ^ 308\<close>.
  The statements below that compare two runs of the normalization, or give the result of
  a rounding for a whole range of inputs, are therefore made within bounds: a precision of
  at most 6 digits, values of a magnitude of at most \<open>10 ^ 9\<close>, lists of at most 1000
  widths, and non-negative widths where a total is divided by.  There a value times the
  multiplier of \<^verbatim>\<open>toPrecision\<close> stays below \<open>2 ^ 53\<close>, no total is the small difference
  of large terms, and the accumulated error stays far below half a unit of the last digit
  that \<^verbatim>\<open>toPrecision\<close> keeps.  The bounds are not used by the proofs, which are
  about the exact arithmetic.
\<close>

datatype number = Finite rat | PosInfinity | NegInfinity | NaN

datatype jsval = Str string | Num number

fun num_neg :: "number \<Rightarrow> number" where
  "num_neg (Finite a) = Finite (- a)"
| "num_neg PosInfinity = NegInfinity"
| "num_neg NegInfinity = PosInfinity"
| "num_neg NaN = NaN"

text \<open>\<^verbatim>\<open>a + b\<close> on numbers.\<close>

fun num_add :: "number \<Rightarrow> number \<Rightarrow> number" where
  "num_add NaN b = NaN"
| "num_add a NaN = NaN"
| "num_add (Finite a) (Finite b) = Finite (a + b)"
| "num_add (Finite a) b = b"
| "num_add a (Finite b) = a"
| "num_add a b = (if a = b then a else NaN)"

text \<open>\<^verbatim>\<open>a - b\<close> on numbers.\<close>

definition num_sub :: "number \<Rightarrow> number \<Rightarrow> number" where
  "num_sub a b = num_add a (num_neg b)"

text \<open>\<^verbatim>\<open>a * b\<close> on numbers.\<close>

fun num_mul :: "number \<Rightarrow> number \<Rightarrow> number" where
  "num_mul NaN b = NaN"
| "num_mul a NaN = NaN"
| "num_mul (Finite a) (Finite b) = Finite (a * b)"
| "num_mul (Finite a) b = (if a = 0 then NaN else if 0 < a then b else num_neg b)"
| "num_mul a (Finite b) = (if b = 0 then NaN else if 0 < b then a else num_neg a)"
| "num_mul a b = (if a = b then PosInfinity else NegInfinity)"

text \<open>\<^verbatim>\<open>a / b\<close> on numbers; a zero divisor is \<^verbatim>\<open>+0\<close>.\<close>

fun num_div :: "number \<Rightarrow> number \<Rightarrow> number" where
  "num_div NaN b = NaN"
| "num_div a NaN = NaN"
| "num_div (Finite a) (Finite b) =
     (if b = 0 then (if a = 0 then NaN else if 0 < a then PosInfinity else NegInfinity)
      else Finite (a / b))"
| "num_div (Finite a) b = Finite 0"
| "num_div a (Finite b) = (if b < 0 then num_neg a else a)"
| "num_div a b = NaN"

text \<open>\<^verbatim>\<open>a <= b\<close> and \<^verbatim>\<open>a >= b\<close>: false as soon as one side is NaN.\<close>

fun num_le :: "number \<Rightarrow> number \<Rightarrow> bool" where
  "num_le NaN b = False"
| "num_le a NaN = False"
| "num_le (Finite a) (Finite b) = (a \<le> b)"
| "num_le NegInfinity b = True"
| "num_le a PosInfinity = True"
| "num_le a b = False"

definition num_ge :: "number \<Rightarrow> number \<Rightarrow> bool" where
  "num_ge a b = num_le b a"

text \<open>\<^verbatim>\<open>a < b\<close> on numbers: false as soon as one side is NaN.\<close>

definition num_lt :: "number \<Rightarrow> number \<Rightarrow> bool" where
  "num_lt a b \<longleftrightarrow> num_le a b \<and> a \<noteq> b"

text \<open>\<^verbatim>\<open>Math.max(a, b)\<close>: NaN if either argument is NaN.\<close>

fun Math_max :: "number \<Rightarrow> number \<Rightarrow> number" where
  "Math_max NaN b = NaN"
| "Math_max a NaN = NaN"
| "Math_max a b = (if num_le a b then b else a)"

text \<open>\<^verbatim>\<open>Math.round(x)\<close>: the nearest integer, a tie going up.\<close>

fun Math_round :: "number \<Rightarrow> number" where
  "Math_round (Finite a) = Finite (of_int \<lfloor>a + 1 / 2\<rfloor>)"
| "Math_round a = a"

section \<open>Strings: \<^verbatim>\<open>trim\<close> and \<^verbatim>\<open>parseFloat\<close>\<close>

text \<open>
  Strings are lists of 8-bit characters, read as the code units U+0000 to U+00FF.  The
  white space and line terminators of ECMAScript in that range are tab, line feed,
  vertical tab, form feed, carriage return, space and the no-break space U+00A0; the
  others (U+FEFF, U+2028 and the remaining space separators) lie beyond it, and a string
  that contains them has no counterpart in the model.
\<close>

definition isWhiteSpace :: "char \<Rightarrow> bool" where
  "isWhiteSpace c \<longleftrightarrow>
     c \<in> set [CHR 0x09, CHR 0x0A, CHR 0x0B, CHR 0x0C, CHR 0x0D, CHR 0x20, CHR 0xA0]"

text \<open>\<^verbatim>\<open>String.prototype.trim()\<close>.\<close>

definition trim :: "string \<Rightarrow> string" where
  "trim s = rev (dropWhile isWhiteSpace (rev (dropWhile isWhiteSpace s)))"

definition isDigit :: "char \<Rightarrow> bool" where
  "isDigit c \<longleftrightarrow> c \<in> set ''0123456789''"

definition digitValue :: "char \<Rightarrow> nat" where
  "digitValue c = of_char c - 48"

definition digitsValue :: "string \<Rightarrow> nat" where
  "digitsValue ds = foldl (\<lambda>a c. 10 * a + digitValue c) 0 ds"

definition pow10 :: "int \<Rightarrow> rat" where
  "pow10 e = (if 0 \<le> e then 10 ^ nat e else 1 / 10 ^ nat (- e))"

text \<open>
  The value of the \<^verbatim>\<open>SignedInteger\<close> of an exponent part; without digits there is
  no exponent part, and the result is 0.
\<close>

fun signedInteger :: "string \<Rightarrow> int" where
  "signedInteger [] = 0"
| "signedInteger (c # t) =
     (if c = CHR ''-'' then - int (digitsValue (takeWhile isDigit t))
      else if c = CHR ''+'' then int (digitsValue (takeWhile isDigit t))
      else int (digitsValue (takeWhile isDigit (c # t))))"

fun exponentPart :: "string \<Rightarrow> int" where
  "exponentPart [] = 0"
| "exponentPart (c # t) = (if c = CHR ''e'' \<or> c = CHR ''E'' then signedInteger t else 0)"

text \<open>
  The longest prefix that is a \<^verbatim>\<open>StrUnsignedDecimalLiteral\<close>: \<^verbatim>\<open>Infinity\<close>, or
  digits with an optional fraction and an optional exponent part, at least one digit
  before the exponent.  Without such a prefix the result is NaN.
\<close>

definition parseUnsigned :: "string \<Rightarrow> number" where
  "parseUnsigned s =
     (if take 8 s = ''Infinity'' then PosInfinity
      else
        let ip = takeWhile isDigit s;
            r1 = dropWhile isDigit s;
            hasPoint = (case r1 of [] \<Rightarrow> False | c # t \<Rightarrow> c = CHR ''.'');
            fp = (if hasPoint then takeWhile isDigit (tl r1) else []);
            r2 = (if hasPoint then dropWhile isDigit (tl r1) else r1)
        in if ip = [] \<and> fp = [] then NaN
           else Finite ((of_nat (digitsValue ip) + of_nat (digitsValue fp) / 10 ^ length fp)
                        * pow10 (exponentPart r2)))"

text \<open>
  \<^verbatim>\<open>parseFloat(value)\<close>.  The argument is first converted to a string.  For a number
  that conversion followed by the parse gives the number back (NaN prints as
  \<^verbatim>\<open>NaN\<close>, which does not parse, and the infinities print as \<^verbatim>\<open>Infinity\<close> and
  \<^verbatim>\<open>-Infinity\<close>), so a number is returned as it is.
\<close>

fun parseFloat :: "jsval \<Rightarrow> number" where
  "parseFloat (Num n) = n"
| "parseFloat (Str s) =
     (case dropWhile isWhiteSpace s of
        [] \<Rightarrow> NaN
      | c # t \<Rightarrow>
          if c = CHR ''-'' then num_neg (parseUnsigned t)
          else if c = CHR ''+'' then parseUnsigned t
          else parseUnsigned (c # t))"

section \<open>The utilities\<close>

text \<open>
  The constants of \<^verbatim>\<open>./constants\<close> are imported by the module but are not among the
  sources, so they are parameters of the model: the number of digits kept after the
  decimal point, and the minimum column width in percent.
\<close>

record constants =
  COLUMN_WIDTH_PRECISION :: nat
  COLUMN_MIN_WIDTH_AS_PERCENTAGE :: rat

definition toPrecision :: "constants \<Rightarrow> jsval \<Rightarrow> number" where
  "toPrecision k v =
     (let multiplier = Finite (10 ^ COLUMN_WIDTH_PRECISION k);
          number = parseFloat v
      in num_div (Math_round (num_mul number multiplier)) multiplier)"

definition clamp :: "constants \<Rightarrow> number \<Rightarrow> number \<Rightarrow> number \<Rightarrow> number" where
  "clamp k number mn mx =
     (if num_le number mn then toPrecision k (Num mn)
      else if num_ge number mx then toPrecision k (Num mx)
      else toPrecision k (Num number))"

definition fillArray :: "nat \<Rightarrow> 'a \<Rightarrow> 'a list" where
  "fillArray len val = replicate len val"

definition sumArray :: "jsval list \<Rightarrow> number" where
  "sumArray array =
     foldl (\<lambda>result item. num_add result item) (Finite 0)
       (filter (\<lambda>value. value \<noteq> NaN) (map parseFloat array))"

definition calculateMissingColumnWidths :: "constants \<Rightarrow> string list \<Rightarrow> number list" where
  "calculateMissingColumnWidths k columnWidthsAttribute =
     (let columnWidths = map trim columnWidthsAttribute;
          numberOfUninitializedColumns =
            length (filter (\<lambda>columnWidth. columnWidth = ''auto'') columnWidths)
      in if numberOfUninitializedColumns = 0
         then map (\<lambda>columnWidth. toPrecision k (Str columnWidth)) columnWidths
         else
           let totalWidthOfInitializedColumns = sumArray (map Str columnWidths);
               widthForUninitializedColumn =
                 Math_max
                   (num_div (num_sub (Finite 100) totalWidthOfInitializedColumns)
                      (Finite (of_nat numberOfUninitializedColumns)))
                   (Finite (COLUMN_MIN_WIDTH_AS_PERCENTAGE k))
           in map (\<lambda>columnWidth. toPrecision k columnWidth)
                (map (\<lambda>columnWidth.
                        if columnWidth = ''auto'' then Num widthForUninitializedColumn
                        else Str columnWidth)
                   columnWidths))"

text \<open>
  The second \<^verbatim>\<open>map\<close> of \<^verbatim>\<open>normalizeColumnWidths\<close>: every column but the last is
  kept, the last one takes up the difference to 100.
\<close>

definition adjustLastColumn :: "constants \<Rightarrow> number list \<Rightarrow> number list" where
  "adjustLastColumn k columnWidths =
     map (\<lambda>(columnIndex, columnWidth).
            if int columnIndex \<noteq> int (length columnWidths) - 1 then columnWidth
            else
              let totalWidth = sumArray (map Num columnWidths)
              in toPrecision k (Num (num_sub (num_add columnWidth (Finite 100)) totalWidth)))
       (zip [0 ..< length columnWidths] columnWidths)"

definition normalizeColumnWidths :: "constants \<Rightarrow> string list \<Rightarrow> number list" where
  "normalizeColumnWidths k columnWidthsAttribute =
     (let columnWidths = calculateMissingColumnWidths k columnWidthsAttribute;
          totalWidth = sumArray (map Num columnWidths)
      in if totalWidth = Finite 100 then columnWidths
         else adjustLastColumn k
                (map (\<lambda>columnWidth.
                        toPrecision k (Num (num_div (num_mul columnWidth (Finite 100)) totalWidth)))
                   columnWidths))"

section \<open>Fixed-point values\<close>

text \<open>The values with at most \<^verbatim>\<open>COLUMN_WIDTH_PRECISION\<close> digits after the decimal point.\<close>

definition fixedPoint :: "constants \<Rightarrow> rat \<Rightarrow> bool" where
  "fixedPoint k q \<longleftrightarrow> (\<exists>m::int. q = of_int m / 10 ^ COLUMN_WIDTH_PRECISION k)"

text \<open>
  A width that is a finite value or NaN, and the total of a list of such widths as
  \<^verbatim>\<open>sumArray\<close> computes it, the NaN entries left out.
\<close>

fun widthOf :: "rat option \<Rightarrow> number" where
  "widthOf None = NaN"
| "widthOf (Some q) = Finite q"

fun finiteTotal :: "rat option list \<Rightarrow> rat" where
  "finiteTotal [] = 0"
| "finiteTotal (None # os) = finiteTotal os"
| "finiteTotal (Some q # os) = q + finiteTotal os"

section \<open>\<^verbatim>\<open>Number.prototype.toString\<close>\<close>

text \<open>
  The decimal rendering of a number, as ECMAScript defines it.  For a positive value take
  \<open>n\<close>, \<open>k\<close> and \<open>s\<close> such that \<open>s\<close> has \<open>k\<close> digits, the value is \<open>s * 10 ^ (n - k)\<close> and
  \<open>k\<close> is as small as possible; the digits of \<open>s\<close> are laid out positionally when
  \<open>-5 \<le> n \<le> 21\<close>, and in exponent notation otherwise.  A rational without a finite decimal
  expansion has no such rendering: the search for the number of its fraction digits does
  not return.  Every value that \<^verbatim>\<open>toPrecision\<close> returns has one.
\<close>

definition digitChar :: "nat \<Rightarrow> char" where
  "digitChar d = ''0123456789'' ! d"

fun digitsOf :: "nat \<Rightarrow> string" where
  "digitsOf n = (if n < 10 then [digitChar n] else digitsOf (n div 10) @ [digitChar (n mod 10)])"

text \<open>The least \<open>t\<close> for which \<open>x * 10 ^ t\<close> is an integer.\<close>

partial_function (option) fractionDigits :: "rat \<Rightarrow> nat option" where
  "fractionDigits x =
     (if of_int \<lfloor>x\<rfloor> = x then Some 0
      else Option.bind (fractionDigits (10 * x)) (\<lambda>t. Some (Suc t)))"

declare fractionDigits.simps [code]

definition stripTrailingZeros :: "string \<Rightarrow> string" where
  "stripTrailingZeros ds = rev (dropWhile (\<lambda>c. c = CHR ''0'') (rev ds))"

text \<open>The layout of the digits \<open>s\<close> of a value \<open>s * 10 ^ (n - k)\<close>, where \<open>k\<close> is the number of digits.\<close>

definition layoutDigits :: "string \<Rightarrow> int \<Rightarrow> string" where
  "layoutDigits s n =
     (let k = int (length s)
      in if - 5 \<le> n \<and> n \<le> 21 then
           (if k \<le> n then s @ replicate (nat (n - k)) (CHR ''0'')
            else if 0 < n then take (nat n) s @ ''.'' @ drop (nat n) s
            else ''0.'' @ replicate (nat (- n)) (CHR ''0'') @ s)
         else
           let e = ''e'' @ (if n < 0 then ''-'' else ''+'') @ digitsOf (nat \<bar>n - 1\<bar>)
           in if k = 1 then s @ e else hd s # ''.'' @ tl s @ e)"

definition toStringPositive :: "rat \<Rightarrow> string option" where
  "toStringPositive x =
     (case fractionDigits x of
        None \<Rightarrow> None
      | Some t \<Rightarrow>
          let ds = digitsOf (nat \<lfloor>x * 10 ^ t\<rfloor>)
          in Some (layoutDigits (stripTrailingZeros ds) (int (length ds) - int t)))"

fun toString :: "number \<Rightarrow> string option" where
  "toString NaN = Some ''NaN''"
| "toString PosInfinity = Some ''Infinity''"
| "toString NegInfinity = Some ''-Infinity''"
| "toString (Finite x) =
     (if x = 0 then Some ''0''
      else if x < 0 then map_option (\<lambda>s. CHR ''-'' # s) (toStringPositive (- x))
      else toStringPositive x)"

section \<open>The document model\<close>

text \<open>
  Modelled from the spec: the engine's document tree, positions and ranges, which the
  module uses but which are not among the sources.  A table is a structural node with rows
  of cells; it carries an optional \<^verbatim>\<open>columnWidths\<close> attribute, and a cell an optional
  \<^verbatim>\<open>colspan\<close>.  Of the attributes of an element these are the two the module reads,
  the first a string and the second a number.  Every node has an identity, which is what
  a JavaScript \<^verbatim>\<open>Set\<close> or \<^verbatim>\<open>Map\<close> compares; distinct nodes of a document have
  distinct identities.
\<close>

datatype node =
    Element nat string "string option" "number option" "node list"
  | Text nat string

text \<open>
  The fields of an element are its identity, its name, the attributes
  \<^verbatim>\<open>columnWidths\<close> and \<^verbatim>\<open>colspan\<close>, and its children; a text node has an identity
  and its characters.
\<close>

text \<open>
  Modelled from the spec: a position is a place between two children of a parent element;
  the parent is given by the child indices that lead to it from the root.
\<close>

record position =
  parentPath :: "nat list"
  offset :: nat

text \<open>
  Modelled from the spec: a range, given by its two ends, and a change record of the
  differ, with its kind, the name of the element involved and a position, or the range of
  an attribute change.
\<close>

record modelRange =
  start :: position
  finish :: position

datatype change =
    Insert string position
  | Remove string position
  | Attribute modelRange

text \<open>The exception raised by a property access on \<^verbatim>\<open>null\<close>.\<close>

datatype error = TypeError

text \<open>
  Modelled from the spec: what the module asks of a node, namely
  \<^verbatim>\<open>node.is( 'element' )\<close>, \<^verbatim>\<open>node.name\<close> (undefined for a text node), the
  children, \<^verbatim>\<open>node.hasAttribute( 'columnWidths' )\<close> and
  \<^verbatim>\<open>node.getAttribute( 'colspan' )\<close> (undefined without the attribute), and the node
  that a path of child indices leads to.
\<close>

fun isElement :: "node \<Rightarrow> bool" where
  "isElement (Element i n w c ns) = True"
| "isElement (Text i d) = False"

fun nodeName :: "node \<Rightarrow> string option" where
  "nodeName (Element i n w c ns) = Some n"
| "nodeName (Text i d) = None"

fun childNodes :: "node \<Rightarrow> node list" where
  "childNodes (Element i n w c ns) = ns"
| "childNodes (Text i d) = []"

fun hasColumnWidths :: "node \<Rightarrow> bool" where
  "hasColumnWidths (Element i n w c ns) = (w \<noteq> None)"
| "hasColumnWidths (Text i d) = False"

fun colspanAttribute :: "node \<Rightarrow> number option" where
  "colspanAttribute (Element i n w c ns) = c"
| "colspanAttribute (Text i d) = None"

fun nodeAt :: "node \<Rightarrow> nat list \<Rightarrow> node option" where
  "nodeAt rt [] = Some rt"
| "nodeAt rt (i # is) =
     (if i < length (childNodes rt) then nodeAt (childNodes rt ! i) is else None)"

text \<open>
  Modelled from the spec: \<^verbatim>\<open>position.nodeAfter\<close>, the node that follows the position
  in its parent, if any.
\<close>

definition nodeAfter :: "node \<Rightarrow> position \<Rightarrow> node option" where
  "nodeAfter rt pos =
     (case nodeAt rt (parentPath pos) of
        None \<Rightarrow> None
      | Some parent \<Rightarrow>
          if offset pos < length (childNodes parent) then Some (childNodes parent ! offset pos)
          else None)"

text \<open>
  Modelled from the spec: the elements that contain a position, from the root down to
  the parent of the position.
\<close>

fun ancestors :: "node \<Rightarrow> nat list \<Rightarrow> node list" where
  "ancestors rt [] = [rt]"
| "ancestors rt (i # is) =
     (if i < length (childNodes rt) then rt # ancestors (childNodes rt ! i) is
      else [rt])"

text \<open>
  Modelled from the spec: \<^verbatim>\<open>position.findAncestor( name )\<close>, the nearest element of
  that name containing the position.
\<close>

definition findAncestor :: "node \<Rightarrow> position \<Rightarrow> string \<Rightarrow> node option" where
  "findAncestor rt pos nm =
     (case filter (\<lambda>a. nodeName a = Some nm) (rev (ancestors rt (parentPath pos))) of
        [] \<Rightarrow> None
      | a # _ \<Rightarrow> Some a)"

text \<open>
  Modelled from the spec: the items of the range on a node, that is the node and every
  node contained in it, in document order.
\<close>

fun getItems :: "node \<Rightarrow> node list" where
  "getItems (Element i n w c ns) = Element i n w c ns # concat (map getItems ns)"
| "getItems (Text i d) = [Text i d]"


text \<open>
  Modelled from the spec: \<^verbatim>\<open>model.createRangeOn( item ).getItems()\<close>.  There is no
  range on \<^verbatim>\<open>null\<close>, which is what the code passes when a reference position has no
  enclosing table: the call raises.
\<close>

definition createRangeOn_getItems :: "node option \<Rightarrow> error + node list" where
  "createRangeOn_getItems item =
     (case item of None \<Rightarrow> Inl TypeError | Some n \<Rightarrow> Inr (getItems n))"

section \<open>Affected tables and column indexes\<close>

text \<open>\<^verbatim>\<open>Set.prototype.add\<close> on a set kept in insertion order.\<close>

definition set_add :: "node list \<Rightarrow> node \<Rightarrow> node list" where
  "set_add s x = (if x \<in> set s then s else s @ [x])"

text \<open>
  The \<^verbatim>\<open>switch\<close> of \<^verbatim>\<open>getAffectedTables\<close>: the reference position of a change, or
  null.
\<close>

fun referencePosition :: "node \<Rightarrow> change \<Rightarrow> position option" where
  "referencePosition model (Insert nm pos) =
     (if nm \<in> set [''table'', ''tableRow'', ''tableCell''] then Some pos else None)"
| "referencePosition model (Remove nm pos) =
     (if nm \<in> set [''tableRow'', ''tableCell''] then Some pos else None)"
| "referencePosition model (Attribute rng) =
     (case nodeAfter model (start rng) of
        None \<Rightarrow> None
      | Some n \<Rightarrow>
          if nodeName n \<in> set [Some ''table'', Some ''tableRow'', Some ''tableCell'']
          then Some (start rng) else None)"

definition tableNode :: "node \<Rightarrow> position \<Rightarrow> node option" where
  "tableNode model pos =
     (case nodeAfter model pos of
        None \<Rightarrow> findAncestor model pos ''table''
      | Some n \<Rightarrow> if nodeName n = Some ''table'' then Some n else findAncestor model pos ''table'')"

definition isTableWithColumnWidths :: "node \<Rightarrow> bool" where
  "isTableWithColumnWidths nd \<longleftrightarrow>
     isElement nd \<and> nodeName nd = Some ''table'' \<and> hasColumnWidths nd"

text \<open>The loop over the changes, with the set collected so far.\<close>

fun affectedTablesLoop :: "node \<Rightarrow> change list \<Rightarrow> node list \<Rightarrow> error + node list" where
  "affectedTablesLoop model [] affectedTables = Inr affectedTables"
| "affectedTablesLoop model (change # changes) affectedTables =
     (case referencePosition model change of
        None \<Rightarrow> affectedTablesLoop model changes affectedTables
      | Some pos \<Rightarrow>
          (case createRangeOn_getItems (tableNode model pos) of
             Inl e \<Rightarrow> Inl e
           | Inr items \<Rightarrow>
               affectedTablesLoop model changes
                 (foldl set_add affectedTables (filter isTableWithColumnWidths items))))"

definition getAffectedTables :: "change list \<Rightarrow> node \<Rightarrow> error + node list" where
  "getAffectedTables changes model = affectedTablesLoop model changes []"


text \<open>
  \<^verbatim>\<open>getColumnIndex\<close>.  The map is a JavaScript \<^verbatim>\<open>Map\<close> from cells to numbers; a cell
  without an entry has the index \<^verbatim>\<open>undefined\<close>, and \<^verbatim>\<open>undefined + 1 - 1\<close> is NaN.
  \<^verbatim>\<open>a || 1\<close> is 1 when \<^verbatim>\<open>a\<close> is undefined, 0 or NaN.
\<close>

record columnIndex =
  leftEdge :: "number option"
  rightEdge :: number

definition getColumnIndex :: "node \<Rightarrow> (node \<rightharpoonup> number) \<Rightarrow> columnIndex" where
  "getColumnIndex cell columnIndexMap =
     (let cellColumnIndex = columnIndexMap cell;
          cellWidth = (case colspanAttribute cell of
                         None \<Rightarrow> Finite 1
                       | Some a \<Rightarrow> if a = Finite 0 \<or> a = NaN then Finite 1 else a)
      in \<lparr> leftEdge = cellColumnIndex,
           rightEdge = (case cellColumnIndex of
                          None \<Rightarrow> NaN
                        | Some i \<Rightarrow> num_sub (num_add i cellWidth) (Finite 1)) \<rparr>)"

section \<open>Sample values\<close>

text \<open>
  A choice of the constants for evaluating the functions on concrete inputs: three digits
  after the decimal point and a minimum column width of 5 percent.
\<close>

definition sampleConstants :: constants where
  "sampleConstants = \<lparr> COLUMN_WIDTH_PRECISION = 3, COLUMN_MIN_WIDTH_AS_PERCENTAGE = 5 \<rparr>"




section \<open>Arithmetic, rounding and sums\<close>

lemma toPrecision_Finite:
  "toPrecision k (Num (Finite q)) =
     Finite (of_int \<lfloor>q * 10 ^ COLUMN_WIDTH_PRECISION k + 1 / 2\<rfloor> / 10 ^ COLUMN_WIDTH_PRECISION k)"
  by (simp add: toPrecision_def)

lemma toPrecision_special:
  "toPrecision k (Num NaN) = NaN"
  "toPrecision k (Num PosInfinity) = PosInfinity"
  "toPrecision k (Num NegInfinity) = NegInfinity"
  by (simp_all add: toPrecision_def)

lemma toPrecision_fixed:
  "toPrecision k (Num (Finite (of_int m / 10 ^ COLUMN_WIDTH_PRECISION k))) =
     Finite (of_int m / 10 ^ COLUMN_WIDTH_PRECISION k)"
proof -
  have "\<lfloor>(of_int m :: rat) + 1 / 2\<rfloor> = m" by linarith
  then show ?thesis by (simp add: toPrecision_Finite)
qed

lemma toPrecision_of_int: "toPrecision k (Num (Finite (of_int m))) = Finite (of_int m)"
proof -
  have "(of_int m :: rat) = of_int (m * 10 ^ COLUMN_WIDTH_PRECISION k) / 10 ^ COLUMN_WIDTH_PRECISION k"
    by simp
  then show ?thesis using toPrecision_fixed[of k "m * 10 ^ COLUMN_WIDTH_PRECISION k"] by simp
qed

lemma foldl_num_add_Finite:
  "foldl num_add (Finite a) (map Finite qs) = Finite (a + sum_list qs)"
  by (induction qs arbitrary: a) (simp_all add: add.assoc)

lemma map_parseFloat_Num: "map parseFloat (map Num ns) = ns"
  by (induction ns) simp_all

lemma filter_Finite: "filter (\<lambda>value. value \<noteq> NaN) (map Finite qs) = map Finite qs"
  by (induction qs) simp_all

lemma sumArray_Num: "sumArray (map Num ns) = foldl num_add (Finite 0) (filter (\<lambda>value. value \<noteq> NaN) ns)"
  unfolding sumArray_def map_parseFloat_Num ..

lemma sumArray_Finite: "sumArray (map Num (map Finite qs)) = Finite (sum_list qs)"
  unfolding sumArray_Num filter_Finite foldl_num_add_Finite by simp

lemma sumArray_Finite_comp [simp]: "sumArray (map (Num \<circ> Finite) qs) = Finite (sum_list qs)"
  using sumArray_Finite[of qs] by simp

lemma adjustLastColumn_Nil: "adjustLastColumn k [] = []"
  by (simp add: adjustLastColumn_def)

lemma adjustLastColumn_snoc:
  "adjustLastColumn k (xs @ [x]) =
     xs @ [toPrecision k (Num (num_sub (num_add x (Finite 100)) (sumArray (map Num (xs @ [x])))))]"
proof (rule nth_equalityI)
  show "length (adjustLastColumn k (xs @ [x])) = length (xs @ [toPrecision k (Num (num_sub (num_add x (Finite 100)) (sumArray (map Num (xs @ [x])))))])"
    by (simp add: adjustLastColumn_def)
next
  fix i assume "i < length (adjustLastColumn k (xs @ [x]))"
  then have i: "i < Suc (length xs)" by (simp add: adjustLastColumn_def)
  show "adjustLastColumn k (xs @ [x]) ! i = (xs @ [toPrecision k (Num (num_sub (num_add x (Finite 100)) (sumArray (map Num (xs @ [x])))))]) ! i"
  proof (cases "i = length xs")
    case True
    then show ?thesis by (simp add: adjustLastColumn_def Let_def del: upt_Suc)
  next
    case False
    with i have "i < length xs" by simp
    then show ?thesis by (simp add: adjustLastColumn_def nth_append del: upt_Suc)
  qed
qed

declare parseFloat.simps(2) [simp del]

lemma parseFloat_auto: "parseFloat (Str ''auto'') = NaN"
  by code_simp

lemma trim_auto: "trim ''auto'' = ''auto''"
  by code_simp

lemma calc_length: "length (calculateMissingColumnWidths k ws) = length ws"
  by (simp add: calculateMissingColumnWidths_def Let_def)

lemma adjustLastColumn_length: "length (adjustLastColumn k xs) = length xs"
  by (simp add: adjustLastColumn_def)

lemma normalize_length: "length (normalizeColumnWidths k ws) = length ws"
  by (simp add: normalizeColumnWidths_def Let_def adjustLastColumn_length calc_length)

lemma adjustLastColumn_single:
  "adjustLastColumn k [x] = [toPrecision k (Num (num_sub (num_add x (Finite 100)) (sumArray [Num x])))]"
  using adjustLastColumn_snoc[of k "[]" x] by simp

lemma normalize_single:
  assumes "calculateMissingColumnWidths k ws = [Finite q]" and "q \<noteq> 0"
  shows "normalizeColumnWidths k ws = [Finite 100]"
proof -
  have s: "sumArray [Num (Finite r)] = Finite r" for r
    using sumArray_Finite[of "[r]"] by simp
  have h: "toPrecision k (Num (Finite 100)) = Finite 100"
    using toPrecision_of_int[of k 100] by simp
  show ?thesis
    using assms by (simp add: normalizeColumnWidths_def Let_def s h adjustLastColumn_single num_sub_def)
qed

lemma sumArray_single_auto: "sumArray [Str ''auto''] = Finite 0"
  by (simp add: sumArray_def parseFloat_auto)

lemma calc_single_auto:
  "trim w = ''auto'' \<Longrightarrow>
   calculateMissingColumnWidths k [w] =
     [toPrecision k (Num (Finite (max 100 (COLUMN_MIN_WIDTH_AS_PERCENTAGE k))))]"
  by (simp add: calculateMissingColumnWidths_def sumArray_single_auto num_sub_def max_def)

lemma calc_single_fixed:
  "trim w \<noteq> ''auto'' \<Longrightarrow>
   calculateMissingColumnWidths k [w] = [toPrecision k (Str (trim w))]"
  by (simp add: calculateMissingColumnWidths_def)

lemma round_pos:
  assumes "(100::rat) \<le> a"
  shows "\<lfloor>a * 10 ^ p + 1 / 2\<rfloor> \<noteq> 0"
proof -
  have "(1::rat) \<le> 10 ^ p" by simp
  then have "1 * 1 \<le> a * 10 ^ p" using assms
    by (intro mult_mono) simp_all
  then have "1 \<le> \<lfloor>a * 10 ^ p + 1 / 2\<rfloor>" by linarith
  then show ?thesis by linarith
qed

lemma fixedPoint_toPrecision: "toPrecision k v = Finite q \<Longrightarrow> fixedPoint k q"
  unfolding toPrecision_def Let_def fixedPoint_def
  by (cases "parseFloat v") auto

lemma toPrecision_fixedPoint: "fixedPoint k q \<Longrightarrow> toPrecision k (Num (Finite q)) = Finite q"
  unfolding fixedPoint_def using toPrecision_fixed by auto

lemma fixedPoint_add: "fixedPoint k a \<Longrightarrow> fixedPoint k b \<Longrightarrow> fixedPoint k (a + b)"
  unfolding fixedPoint_def
proof -
  assume "\<exists>m. a = of_int m / 10 ^ COLUMN_WIDTH_PRECISION k" "\<exists>m. b = of_int m / 10 ^ COLUMN_WIDTH_PRECISION k"
  then obtain m n where "a = of_int m / 10 ^ COLUMN_WIDTH_PRECISION k" "b = of_int n / 10 ^ COLUMN_WIDTH_PRECISION k"
    by blast
  then have "a + b = of_int (m + n) / 10 ^ COLUMN_WIDTH_PRECISION k"
    by (simp add: add_divide_distrib)
  then show "\<exists>m. a + b = of_int m / 10 ^ COLUMN_WIDTH_PRECISION k" by blast
qed

lemma fixedPoint_minus: "fixedPoint k a \<Longrightarrow> fixedPoint k (- a)"
  unfolding fixedPoint_def
  by (metis minus_divide_left of_int_minus)

lemma fixedPoint_of_int: "fixedPoint k (of_int m)"
  unfolding fixedPoint_def
  by (rule exI[of _ "m * 10 ^ COLUMN_WIDTH_PRECISION k"]) simp

lemma fixedPoint_sum_list: "(\<forall>q\<in>set qs. fixedPoint k q) \<Longrightarrow> fixedPoint k (sum_list qs)"
proof (induction qs)
  case Nil
  show ?case using fixedPoint_of_int[of k 0] by simp
next
  case (Cons a qs)
  then show ?case by (simp add: fixedPoint_add)
qed

lemma fixedPoint_rounded: "fixedPoint k (of_int m / 10 ^ COLUMN_WIDTH_PRECISION k)"
  unfolding fixedPoint_def by blast

text \<open>The proportional adjustment of a list of finite widths with a total other than 0.\<close>

lemma rescale_Finite:
  assumes "t \<noteq> 0"
  shows "map (\<lambda>columnWidth. toPrecision k (Num (num_div (num_mul columnWidth (Finite 100)) (Finite t))))
           (map Finite qs) =
         map Finite (map (\<lambda>q. of_int \<lfloor>q * 100 / t * 10 ^ COLUMN_WIDTH_PRECISION k + 1 / 2\<rfloor>
                                  / 10 ^ COLUMN_WIDTH_PRECISION k) qs)"
  using assms by (induction qs) (simp_all add: toPrecision_Finite)

lemma adjustLastColumn_Finite:
  assumes "\<forall>q\<in>set qs. fixedPoint k q" and "qs \<noteq> []"
  shows "\<exists>rs. adjustLastColumn k (map Finite qs) = map Finite rs \<and> sum_list rs = 100 \<and>
              (\<forall>r\<in>set rs. fixedPoint k r)"
proof -
  from assms(2) obtain bs l where qs: "qs = bs @ [l]"
    by (metis rev_exhaust)
  let ?l = "l + 100 - sum_list qs"
  have fl: "fixedPoint k ?l"
  proof -
    have "fixedPoint k l" using assms(1) qs by simp
    moreover have "fixedPoint k 100" using fixedPoint_of_int[of k 100] by simp
    moreover have "fixedPoint k (- sum_list qs)"
      using assms(1) by (simp add: fixedPoint_sum_list fixedPoint_minus)
    ultimately have "fixedPoint k (l + 100 + - sum_list qs)"
      by (intro fixedPoint_add)
    then show ?thesis by simp
  qed
  have "adjustLastColumn k (map Finite qs) =
          map Finite bs @ [toPrecision k (Num (num_sub (num_add (Finite l) (Finite 100))
             (sumArray (map Num (map Finite qs)))))]"
    using adjustLastColumn_snoc[of k "map Finite bs" "Finite l"] qs by simp
  also have "\<dots> = map Finite bs @ [toPrecision k (Num (Finite ?l))]"
    by (simp add: sumArray_Finite num_sub_def)
  also have "\<dots> = map Finite (bs @ [?l])"
    by (simp add: toPrecision_fixedPoint[OF fl])
  finally have "adjustLastColumn k (map Finite qs) = map Finite (bs @ [?l])" .
  moreover have "sum_list (bs @ [?l]) = 100" using qs by simp
  moreover have "\<forall>r\<in>set (bs @ [?l]). fixedPoint k r" using assms(1) qs fl by auto
  ultimately show ?thesis by blast
qed

lemma calc_entries: "c \<in> set (calculateMissingColumnWidths k ws) \<Longrightarrow> \<exists>v. c = toPrecision k v"
  by (auto simp: calculateMissingColumnWidths_def Let_def split: if_splits)

lemma calc_fixedPoint:
  "calculateMissingColumnWidths k ws = map Finite qs \<Longrightarrow> \<forall>q\<in>set qs. fixedPoint k q"
proof
  fix q assume c: "calculateMissingColumnWidths k ws = map Finite qs" and "q \<in> set qs"
  then have "Finite q \<in> set (calculateMissingColumnWidths k ws)" by simp
  then obtain v where "Finite q = toPrecision k v" using calc_entries by blast
  then show "fixedPoint k q" using fixedPoint_toPrecision[of k v q] by simp
qed

text \<open>
  With finite resolved widths and a total other than 0, the result consists of finite
  fixed-point values whose sum is 100.
\<close>

lemma normalize_Finite:
  assumes c: "calculateMissingColumnWidths k ws = map Finite qs" and t: "sum_list qs \<noteq> 0"
  shows "\<exists>rs. normalizeColumnWidths k ws = map Finite rs \<and> sum_list rs = 100 \<and>
              (\<forall>r\<in>set rs. fixedPoint k r)"
proof (cases "sum_list qs = 100")
  case True
  then have "normalizeColumnWidths k ws = map Finite qs"
    by (simp add: normalizeColumnWidths_def c Let_def)
  with True calc_fixedPoint[OF c] show ?thesis by blast
next
  case False
  let ?ss = "map (\<lambda>q. of_int \<lfloor>q * 100 / sum_list qs * 10 ^ COLUMN_WIDTH_PRECISION k + 1 / 2\<rfloor>
                                  / 10 ^ COLUMN_WIDTH_PRECISION k) qs"
  have "normalizeColumnWidths k ws =
          adjustLastColumn k
            (map (\<lambda>columnWidth. toPrecision k (Num (num_div (num_mul columnWidth (Finite 100)) (Finite (sum_list qs)))))
               (map Finite qs))"
    using False by (simp add: normalizeColumnWidths_def c Let_def sumArray_Finite del: map_map)
  then have n: "normalizeColumnWidths k ws = adjustLastColumn k (map Finite ?ss)"
    by (simp only: rescale_Finite[OF t])
  have "qs \<noteq> []" using t by auto
  then have "?ss \<noteq> []" by simp
  moreover have "\<forall>q\<in>set ?ss. fixedPoint k q" by (auto simp: fixedPoint_rounded)
  ultimately show ?thesis using adjustLastColumn_Finite[of ?ss k] n by simp
qed

lemma toPrecision_parse: "parseFloat v = n \<Longrightarrow> toPrecision k v = toPrecision k (Num n)"
  by (simp add: toPrecision_def)

lemma num_le_antisym: "num_le a b \<Longrightarrow> num_le b a \<Longrightarrow> a = b"
  by (cases a; cases b) simp_all

lemma num_le_trans: "num_le a b \<Longrightarrow> num_le b c \<Longrightarrow> num_le a c"
  by (cases a; cases b; cases c) simp_all

lemma sumArray_append_NaN:
  "parseFloat v = NaN \<Longrightarrow> sumArray (xs @ v # ys) = sumArray (xs @ ys)"
  by (simp add: sumArray_def)

lemma sumArray_filter:
  "sumArray array =
     foldl (\<lambda>result item. num_add result item) (Finite 0)
       (map parseFloat (filter (\<lambda>value. parseFloat value \<noteq> NaN) array))"
  by (simp add: sumArray_def filter_map comp_def)

lemma sumArray_all_NaN: "\<forall>v\<in>set array. parseFloat v = NaN \<Longrightarrow> sumArray array = Finite 0"
proof -
  assume "\<forall>v\<in>set array. parseFloat v = NaN"
  then have "filter (\<lambda>value. parseFloat value \<noteq> NaN) array = []" by (induction array) simp_all
  then show ?thesis by (simp add: sumArray_filter)
qed

lemma parse_samples:
  "parseFloat (Str ''auto'') = NaN" "parseFloat (Str ''x'') = NaN" "parseFloat (Str '''') = NaN"
  "parseFloat (Str ''10'') = Finite 10" "parseFloat (Str ''2.5'') = Finite (5 / 2)"
  by code_simp+

text \<open>
  A value of at least one unit of the last digit is not rounded to 0; a value and its
  rounding are less than one unit apart; a value less than half a unit away from a
  fixed-point value is rounded to it.
\<close>

lemma round_nonzero:
  assumes "1 / 10 ^ p \<le> \<bar>x :: rat\<bar>"
  shows "\<lfloor>x * 10 ^ p + 1 / 2\<rfloor> \<noteq> 0"
proof -
  have "1 \<le> \<bar>x\<bar> * 10 ^ p" using assms by (simp add: divide_le_eq)
  then have "1 \<le> \<bar>x * 10 ^ p\<bar>" by (simp add: abs_mult)
  then consider "1 \<le> x * 10 ^ p" | "x * 10 ^ p \<le> - 1" by linarith
  then show ?thesis
  proof cases
    case 1
    then have "1 \<le> \<lfloor>x * 10 ^ p + 1 / 2\<rfloor>" by linarith
    then show ?thesis by linarith
  next
    case 2
    then have "\<lfloor>x * 10 ^ p + 1 / 2\<rfloor> \<le> - 1" by linarith
    then show ?thesis by linarith
  qed
qed

lemma toPrecision_close:
  "\<exists>r. toPrecision k (Num (Finite v)) = Finite r \<and> fixedPoint k r \<and>
       \<bar>r - v\<bar> * 10 ^ COLUMN_WIDTH_PRECISION k < 1"
proof -
  let ?p = "COLUMN_WIDTH_PRECISION k"
  let ?m = "\<lfloor>v * 10 ^ ?p + 1 / 2\<rfloor>"
  let ?r = "of_int ?m / 10 ^ ?p :: rat"
  have "(?r - v) * 10 ^ ?p = of_int ?m - v * 10 ^ ?p" by (simp add: field_simps)
  moreover have "\<bar>of_int ?m - v * 10 ^ ?p\<bar> < 1" by linarith
  ultimately have "\<bar>(?r - v) * 10 ^ ?p\<bar> < 1" by simp
  then have "\<bar>?r - v\<bar> * 10 ^ ?p < 1" by (simp add: abs_mult)
  then show ?thesis
    by (intro exI[of _ ?r]) (simp add: toPrecision_Finite fixedPoint_rounded)
qed

lemma toPrecision_near:
  assumes "- (1 / 2) \<le> e" and "e < 1 / 2"
  shows "toPrecision k (Num (Finite ((of_int m + e) / 10 ^ COLUMN_WIDTH_PRECISION k))) =
           Finite (of_int m / 10 ^ COLUMN_WIDTH_PRECISION k)"
proof -
  have "\<lfloor>of_int m + e + 1 / 2\<rfloor> = m" using assms by linarith
  then show ?thesis by (simp add: toPrecision_Finite)
qed

section \<open>The walk over the affected tables\<close>















section \<open>The resolution of the placeholders\<close>

lemma sumArray_without_auto:
  "sumArray (map Str columnWidths) =
   sumArray (map Str (filter (\<lambda>columnWidth. columnWidth \<noteq> ''auto'') columnWidths))"
proof -
  have "filter (\<lambda>value. value \<noteq> NaN) (map parseFloat (map Str columnWidths)) =
        filter (\<lambda>value. value \<noteq> NaN)
          (map parseFloat (map Str (filter (\<lambda>columnWidth. columnWidth \<noteq> ''auto'') columnWidths)))"
    by (induction columnWidths) (simp_all add: parseFloat_auto)
  then show ?thesis by (simp only: sumArray_def)
qed

lemma Math_max_not_less: "\<not> num_lt (Math_max a (Finite m)) (Finite m)"
  by (cases a) (auto simp: num_lt_def)

lemma Math_round_mono: "num_le a b \<Longrightarrow> num_le (Math_round a) (Math_round b)"
  by (cases a; cases b) (simp_all add: floor_mono)

lemma toPrecision_mono:
  assumes "num_le a b"
  shows "num_le (toPrecision k (Num a)) (toPrecision k (Num b))"
proof -
  have p: "(0::rat) < 10 ^ COLUMN_WIDTH_PRECISION k" by simp
  show ?thesis
    using assms p
    by (cases a; cases b)
      (simp_all add: toPrecision_def floor_mono divide_right_mono mult_right_mono)
qed

lemma num_le_not_lt: "num_le a b \<Longrightarrow> \<not> num_lt b a"
  using num_le_antisym[of a b] by (auto simp: num_lt_def)

lemma Math_max_ge: "a \<noteq> NaN \<Longrightarrow> num_le (Finite m) (Math_max a (Finite m))"
  by (cases a) auto

lemma toPrecision_NaN_iff: "toPrecision k (Num a) = NaN \<longleftrightarrow> a = NaN"
  by (cases a) (simp_all add: toPrecision_def)

lemma rounded_share_not_less:
  "\<not> num_lt (toPrecision k (Num (Math_max a (Finite m)))) (toPrecision k (Num (Finite m)))"
proof (cases "a = NaN")
  case True
  then show ?thesis by (simp add: toPrecision_special num_lt_def)
next
  case False
  then show ?thesis
    by (intro num_le_not_lt toPrecision_mono Math_max_ge)
qed

lemma calc_nth_auto:
  assumes "i < length ws" and "trim (ws ! i) = ''auto''"
  shows "calculateMissingColumnWidths k ws ! i =
     toPrecision k (Num (Math_max
       (num_div (num_sub (Finite 100)
            (sumArray (map Str (filter (\<lambda>columnWidth. columnWidth \<noteq> ''auto'') (map trim ws)))))
          (Finite (of_nat (length (filter (\<lambda>columnWidth. columnWidth = ''auto'') (map trim ws))))))
       (Finite (COLUMN_MIN_WIDTH_AS_PERCENTAGE k))))"
proof -
  have "trim (ws ! i) \<in> set (map trim ws)" using assms(1) by simp
  then have "filter (\<lambda>columnWidth. columnWidth = ''auto'') (map trim ws) \<noteq> []"
    using assms(2) by (auto simp: filter_empty_conv simp del: set_map)
  then show ?thesis
    using assms
    by (simp add: calculateMissingColumnWidths_def Let_def sumArray_without_auto[of "map trim ws"]
        del: map_map filter_map)
qed

lemma calc_nth_fixed:
  assumes "i < length ws" and "trim (ws ! i) \<noteq> ''auto''"
  shows "calculateMissingColumnWidths k ws ! i = toPrecision k (Str (trim (ws ! i)))"
  using assms by (simp add: calculateMissingColumnWidths_def Let_def)

lemma calc_90_auto_auto:
  "calculateMissingColumnWidths k [''90'', ''auto'', ''auto''] =
     [Finite 90,
      toPrecision k (Num (Math_max (Finite 5) (Finite (COLUMN_MIN_WIDTH_AS_PERCENTAGE k)))),
      toPrecision k (Num (Math_max (Finite 5) (Finite (COLUMN_MIN_WIDTH_AS_PERCENTAGE k))))]"
proof -
  have tr: "trim ''90'' = ''90''" by code_simp
  have p: "parseFloat (Str ''90'') = Finite (of_int 90)" by code_simp
  have t: "toPrecision k (Str ''90'') = Finite 90"
    using toPrecision_parse[OF p, of k] toPrecision_of_int[of k 90] by simp
  have s: "sumArray [Str ''90'', Str ''auto'', Str ''auto''] = Finite 90"
    using p by (simp add: sumArray_def parseFloat_auto)
  have d: "num_div (num_sub (Finite 100) (Finite 90)) (Finite 2) = Finite 5"
    by (simp add: num_sub_def)
  show ?thesis
    by (simp add: calculateMissingColumnWidths_def tr trim_auto t s d Let_def del: Math_max.simps)
qed

lemma calc_90_auto_auto_floor:
  assumes "fixedPoint k (COLUMN_MIN_WIDTH_AS_PERCENTAGE k)"
  shows "\<not> num_lt (calculateMissingColumnWidths k [''90'', ''auto'', ''auto''] ! 1)
           (Finite (COLUMN_MIN_WIDTH_AS_PERCENTAGE k)) \<and>
         \<not> num_lt (calculateMissingColumnWidths k [''90'', ''auto'', ''auto''] ! 2)
           (Finite (COLUMN_MIN_WIDTH_AS_PERCENTAGE k))"
  using rounded_share_not_less[of k "Finite 5" "COLUMN_MIN_WIDTH_AS_PERCENTAGE k"]
    toPrecision_fixedPoint[OF assms]
  by (simp add: calc_90_auto_auto del: Math_max.simps)

lemma rounded_nonneg:
  assumes "(0::rat) \<le> a"
  shows "0 \<le> rat_of_int \<lfloor>a * 10 ^ p + 1 / 2\<rfloor> / 10 ^ p"
proof -
  have "0 \<le> a * 10 ^ p" using assms by simp
  then have "0 \<le> \<lfloor>a * 10 ^ p + 1 / 2\<rfloor>" by linarith
  then show ?thesis by simp
qed

lemma normalize_90_auto_auto:
  "sumArray (map Num (normalizeColumnWidths k [''90'', ''auto'', ''auto''])) = Finite 100"
proof -
  define r where "r = rat_of_int \<lfloor>max 5 (COLUMN_MIN_WIDTH_AS_PERCENTAGE k) * 10 ^ COLUMN_WIDTH_PRECISION k + 1 / 2\<rfloor>
              / 10 ^ COLUMN_WIDTH_PRECISION k"
  have m: "Math_max (Finite 5) (Finite (COLUMN_MIN_WIDTH_AS_PERCENTAGE k)) =
           Finite (max 5 (COLUMN_MIN_WIDTH_AS_PERCENTAGE k))"
    by (simp add: max_def)
  have c: "calculateMissingColumnWidths k [''90'', ''auto'', ''auto''] = map Finite [90, r, r]"
    unfolding calc_90_auto_auto m by (simp add: toPrecision_Finite r_def)
  have "0 \<le> r" unfolding r_def by (rule rounded_nonneg) simp
  then have "sum_list [90, r, r] \<noteq> 0" by simp
  from normalize_Finite[OF c this] obtain rs where
    "normalizeColumnWidths k [''90'', ''auto'', ''auto''] = map Finite rs" "sum_list rs = 100"
    by blast
  then show ?thesis by (simp add: sumArray_Finite)
qed

section \<open>Rendering a number and parsing it back\<close>

declare digitsOf.simps [simp del]

lemma digit_cases:
  "d < 10 \<Longrightarrow> d = 0 \<or> d = 1 \<or> d = 2 \<or> d = 3 \<or> d = 4 \<or> d = 5 \<or> d = 6 \<or> d = 7 \<or> d = 8 \<or> (d::nat) = 9"
  by arith

lemma digitChar_isDigit: "d < 10 \<Longrightarrow> isDigit (digitChar d)"
  using digit_cases[of d] by (auto simp: digitChar_def isDigit_def)

lemma digitValue_digitChar: "d < 10 \<Longrightarrow> digitValue (digitChar d) = d"
  using digit_cases[of d] by (auto simp: digitChar_def digitValue_def)

lemma isDigit_other:
  "isDigit c \<Longrightarrow> \<not> isWhiteSpace c \<and> c \<noteq> CHR ''.'' \<and> c \<noteq> CHR ''e'' \<and> c \<noteq> CHR ''E'' \<and>
     c \<noteq> CHR ''-'' \<and> c \<noteq> CHR ''+'' \<and> c \<noteq> CHR ''I'' \<and> c \<noteq> CHR ''a''"
  by (auto simp: isDigit_def isWhiteSpace_def)

lemma digitsOf_digits: "\<forall>c\<in>set (digitsOf n). isDigit c"
proof (induction n rule: digitsOf.induct)
  case (1 n)
  show ?case
  proof (cases "n < 10")
    case True
    then show ?thesis by (subst digitsOf.simps) (simp add: digitChar_isDigit)
  next
    case False
    have "n mod 10 < 10" by simp
    with False 1 show ?thesis by (subst digitsOf.simps) (simp add: digitChar_isDigit)
  qed
qed

lemma digitsOf_nonempty: "digitsOf n \<noteq> []"
  by (subst digitsOf.simps) simp

lemma foldl_digits:
  "foldl (\<lambda>a c. 10 * a + digitValue c) a ds =
   a * 10 ^ length ds + foldl (\<lambda>a c. 10 * a + digitValue c) 0 ds"
proof (induction ds arbitrary: a)
  case Nil
  show ?case by simp
next
  case (Cons c ds)
  show ?case
    using Cons.IH[of "10 * a + digitValue c"] Cons.IH[of "digitValue c"]
    by (simp add: algebra_simps)
qed

lemma digitsValue_append:
  "digitsValue (xs @ ys) = digitsValue xs * 10 ^ length ys + digitsValue ys"
  unfolding digitsValue_def
  using foldl_digits[of "foldl (\<lambda>a c. 10 * a + digitValue c) 0 xs" ys] by simp

lemma digitsValue_single: "digitsValue [c] = digitValue c"
  by (simp add: digitsValue_def)

lemma digitsValue_Nil: "digitsValue [] = 0"
  by (simp add: digitsValue_def)

lemma digitsValue_digitsOf: "digitsValue (digitsOf n) = n"
proof (induction n rule: digitsOf.induct)
  case (1 n)
  show ?case
  proof (cases "n < 10")
    case True
    then show ?thesis
      by (subst digitsOf.simps) (simp add: digitsValue_single digitValue_digitChar)
  next
    case False
    have "n mod 10 < 10" by simp
    with False 1 show ?thesis
      by (subst digitsOf.simps)
        (simp add: digitsValue_append digitsValue_single digitValue_digitChar)
  qed
qed

lemma digitsValue_zeros: "digitsValue (replicate z (CHR ''0'')) = 0"
proof (induction z)
  case 0
  show ?case by (simp add: digitsValue_Nil)
next
  case (Suc z)
  have "digitsValue (replicate (Suc z) (CHR ''0'')) = digitsValue ([CHR ''0''] @ replicate z (CHR ''0''))"
    by simp
  also have "\<dots> = 0"
    unfolding digitsValue_append using Suc by (simp add: digitsValue_single digitValue_def)
  finally show ?case .
qed

lemma strip_decomp:
  "ds = stripTrailingZeros ds @
        replicate (length ds - length (stripTrailingZeros ds)) (CHR ''0'')"
proof -
  let ?P = "\<lambda>c. c = CHR ''0''"
  let ?r = "rev ds"
  have a: "takeWhile ?P ?r = replicate (length (takeWhile ?P ?r)) (CHR ''0'')"
    by (rule replicate_length_same[symmetric]) (auto dest: set_takeWhileD)
  have "?r = takeWhile ?P ?r @ dropWhile ?P ?r" by simp
  then have "rev ?r = rev (dropWhile ?P ?r) @ rev (takeWhile ?P ?r)"
    by (metis rev_append)
  then have b: "ds = stripTrailingZeros ds @ rev (takeWhile ?P ?r)"
    by (simp add: stripTrailingZeros_def)
  have "length ds = length (stripTrailingZeros ds) + length (takeWhile ?P ?r)"
    using arg_cong[OF b, of length] by simp
  then have c: "length ds - length (stripTrailingZeros ds) = length (takeWhile ?P ?r)" by simp
  have "rev (takeWhile ?P ?r) = replicate (length (takeWhile ?P ?r)) (CHR ''0'')"
    by (subst a) simp
  with b c show ?thesis by simp
qed

lemma strip_subset: "set (stripTrailingZeros ds) \<subseteq> set ds"
  by (auto simp: stripTrailingZeros_def dest: set_dropWhileD)

lemma strip_value:
  "digitsValue ds =
   digitsValue (stripTrailingZeros ds) * 10 ^ (length ds - length (stripTrailingZeros ds))"
proof -
  have "digitsValue ds =
        digitsValue (stripTrailingZeros ds @
          replicate (length ds - length (stripTrailingZeros ds)) (CHR ''0''))"
    using strip_decomp[of ds] by simp
  then show ?thesis by (simp only: digitsValue_append digitsValue_zeros length_replicate)
qed

lemma strip_length: "length (stripTrailingZeros ds) \<le> length ds"
  by (simp add: stripTrailingZeros_def) (metis length_dropWhile_le length_rev)

lemma pow10_power_int: "pow10 e = power_int 10 e"
  by (simp add: pow10_def power_int_def power_one_over inverse_eq_divide)

lemma pow10_add: "pow10 (a + b) = pow10 a * pow10 b"
  by (simp add: pow10_power_int power_int_add)

lemma pow10_nat: "pow10 (int m) = 10 ^ m"
  by (simp add: pow10_def)

lemma pow10_neg_nat: "pow10 (- int m) = 1 / 10 ^ m"
  by (simp add: pow10_power_int power_int_minus inverse_eq_divide)

lemma pow10_diff_nat: "pow10 (int a - int b) = 10 ^ a / 10 ^ b"
  using pow10_add[of "int a" "- int b"] by (simp add: pow10_nat pow10_neg_nat)

lemma takeWhile_run:
  "\<forall>c\<in>set xs. P c \<Longrightarrow> r = [] \<or> \<not> P (hd r) \<Longrightarrow> takeWhile P (xs @ r) = xs"
  by (cases r) (simp_all add: takeWhile_append2)

lemma dropWhile_run:
  "\<forall>c\<in>set xs. P c \<Longrightarrow> r = [] \<or> \<not> P (hd r) \<Longrightarrow> dropWhile P (xs @ r) = r"
  by (cases r) (simp_all add: dropWhile_append2)

lemma not_Infinity: "s \<noteq> [] \<Longrightarrow> isDigit (hd s) \<Longrightarrow> take 8 s \<noteq> ''Infinity''"
  by (cases s) (auto simp: isDigit_def)

lemma parseUnsigned_plain:
  assumes "ip \<noteq> []" and "\<forall>c\<in>set ip. isDigit c"
    and "e = [] \<or> (\<not> isDigit (hd e) \<and> hd e \<noteq> CHR ''.'')"
  shows "parseUnsigned (ip @ e) = Finite (of_nat (digitsValue ip) * pow10 (exponentPart e))"
proof -
  have h: "isDigit (hd (ip @ e))" using assms(1,2) by (cases ip) simp_all
  have i: "take 8 (ip @ e) \<noteq> ''Infinity''" using assms(1) h by (intro not_Infinity) simp_all
  have e': "e = [] \<or> \<not> isDigit (hd e)" using assms(3) by blast
  have t: "takeWhile isDigit (ip @ e) = ip" by (rule takeWhile_run[OF assms(2) e'])
  have d: "dropWhile isDigit (ip @ e) = e" by (rule dropWhile_run[OF assms(2) e'])
  have p: "(case e of [] \<Rightarrow> False | c # t \<Rightarrow> c = CHR ''.'') = False"
    using assms(3) by (cases e) simp_all
  show ?thesis
    unfolding parseUnsigned_def Let_def t d p using i assms(1) by (simp add: digitsValue_Nil)
qed

lemma parseUnsigned_point:
  assumes "ip \<noteq> []" and "\<forall>c\<in>set ip. isDigit c" and "\<forall>c\<in>set fp. isDigit c"
    and "e = [] \<or> \<not> isDigit (hd e)"
  shows "parseUnsigned (ip @ CHR ''.'' # fp @ e) =
     Finite ((of_nat (digitsValue ip) + of_nat (digitsValue fp) / 10 ^ length fp)
             * pow10 (exponentPart e))"
proof -
  have h: "isDigit (hd (ip @ CHR ''.'' # fp @ e))" using assms(1,2) by (cases ip) simp_all
  have i: "take 8 (ip @ CHR ''.'' # fp @ e) \<noteq> ''Infinity''"
    using assms(1) h by (intro not_Infinity) simp_all
  have nd: "\<not> isDigit (CHR ''.'')" by (simp add: isDigit_def)
  have t: "takeWhile isDigit (ip @ CHR ''.'' # fp @ e) = ip"
    by (rule takeWhile_run[OF assms(2)]) (simp add: nd)
  have d: "dropWhile isDigit (ip @ CHR ''.'' # fp @ e) = CHR ''.'' # fp @ e"
    by (rule dropWhile_run[OF assms(2)]) (simp add: nd)
  have t2: "takeWhile isDigit (fp @ e) = fp" by (rule takeWhile_run[OF assms(3,4)])
  have d2: "dropWhile isDigit (fp @ e) = e" by (rule dropWhile_run[OF assms(3,4)])
  show ?thesis
    unfolding parseUnsigned_def Let_def t d using i assms(1) by (simp add: t2 d2)
qed

lemma exponentPart_rendered:
  "exponentPart (''e'' @ (if n < 0 then ''-'' else ''+'') @ digitsOf m) =
     (if n < 0 then - int m else int m)"
proof -
  have tw: "takeWhile isDigit (digitsOf m) = digitsOf m"
    by (simp add: digitsOf_digits)
  show ?thesis by (simp add: tw digitsValue_digitsOf)
qed

lemma exponent_not_digit:
  "\<not> isDigit (hd (''e'' @ sg @ ds)) \<and> hd (''e'' @ sg @ ds) \<noteq> CHR ''.''"
  by (simp add: isDigit_def)

lemma layout_A:
  "- 5 \<le> n \<Longrightarrow> n \<le> 21 \<Longrightarrow> int (length s) \<le> n \<Longrightarrow>
   layoutDigits s n = s @ replicate (nat (n - int (length s))) (CHR ''0'')"
  unfolding layoutDigits_def by (simp only: Let_def if_True simp_thms)

lemma layout_B:
  "- 5 \<le> n \<Longrightarrow> n \<le> 21 \<Longrightarrow> \<not> int (length s) \<le> n \<Longrightarrow> 0 < n \<Longrightarrow>
   layoutDigits s n = take (nat n) s @ ''.'' @ drop (nat n) s"
  unfolding layoutDigits_def by (simp only: Let_def if_True if_False simp_thms)

lemma layout_C:
  "- 5 \<le> n \<Longrightarrow> n \<le> 21 \<Longrightarrow> \<not> int (length s) \<le> n \<Longrightarrow> \<not> 0 < n \<Longrightarrow>
   layoutDigits s n = ''0.'' @ replicate (nat (- n)) (CHR ''0'') @ s"
  unfolding layoutDigits_def by (simp only: Let_def if_True if_False simp_thms)

lemma layout_D:
  "\<not> (- 5 \<le> n \<and> n \<le> 21) \<Longrightarrow> int (length s) = 1 \<Longrightarrow>
   layoutDigits s n = s @ ''e'' @ (if n < 0 then ''-'' else ''+'') @ digitsOf (nat \<bar>n - 1\<bar>)"
  unfolding layoutDigits_def by (simp only: Let_def if_True if_False simp_thms)

lemma layout_E:
  "\<not> (- 5 \<le> n \<and> n \<le> 21) \<Longrightarrow> int (length s) \<noteq> 1 \<Longrightarrow>
   layoutDigits s n =
     hd s # ''.'' @ tl s @ ''e'' @ (if n < 0 then ''-'' else ''+'') @ digitsOf (nat \<bar>n - 1\<bar>)"
  unfolding layoutDigits_def by (simp only: Let_def if_True if_False simp_thms)

lemma pow10_minus_nat: "pow10 (a - int m) = pow10 a / 10 ^ m"
  using pow10_add[of a "- int m"] by (simp add: pow10_neg_nat)

lemma parse_layout:
  assumes "s \<noteq> []" and "\<forall>c\<in>set s. isDigit c"
  shows "parseUnsigned (layoutDigits s n) =
         Finite (of_nat (digitsValue s) * pow10 (n - int (length s)))"
proof -
  let ?k = "int (length s)"
  have k: "1 \<le> ?k" using assms(1) by (cases s) simp_all
  have zd: "isDigit (CHR ''0'')" by (simp add: isDigit_def)
  let ?e = "''e'' @ (if n < 0 then ''-'' else ''+'') @ digitsOf (nat \<bar>n - 1\<bar>)"
  have ex: "\<not> (- 5 \<le> n \<and> n \<le> 21) \<Longrightarrow> exponentPart ?e = n - 1"
    unfolding exponentPart_rendered by auto
  consider (A) "- 5 \<le> n" "n \<le> 21" "?k \<le> n"
    | (B) "- 5 \<le> n" "n \<le> 21" "n < ?k" "0 < n"
    | (C) "- 5 \<le> n" "n \<le> 21" "n < ?k" "n \<le> 0"
    | (D) "\<not> (- 5 \<le> n \<and> n \<le> 21)" "?k = 1"
    | (E) "\<not> (- 5 \<le> n \<and> n \<le> 21)" "?k \<noteq> 1"
    by linarith
  then show ?thesis
  proof cases
    case A
    let ?ip = "s @ replicate (nat (n - ?k)) (CHR ''0'')"
    have l: "layoutDigits s n = ?ip @ []" using layout_A[OF A] by simp
    have d: "\<forall>c\<in>set ?ip. isDigit c" using assms(2) zd by auto
    have "parseUnsigned (layoutDigits s n) =
          Finite (of_nat (digitsValue ?ip) * pow10 (exponentPart []))"
      unfolding l by (rule parseUnsigned_plain) (use assms(1) d in simp_all)
    also have "\<dots> = Finite (of_nat (digitsValue s) * 10 ^ nat (n - ?k))"
      by (simp add: digitsValue_append digitsValue_zeros pow10_def)
    also have "(10::rat) ^ nat (n - ?k) = pow10 (n - ?k)" using A by (simp add: pow10_def)
    finally show ?thesis .
  next
    case B
    let ?ip = "take (nat n) s" and ?fp = "drop (nat n) s"
    let ?m = "length ?fp"
    have l: "layoutDigits s n = ?ip @ CHR ''.'' # ?fp @ []"
      using layout_B[of n s] B by simp
    have ne: "?ip \<noteq> []" using B assms(1) by simp
    have d1: "\<forall>c\<in>set ?ip. isDigit c" using assms(2) by (auto dest: in_set_takeD)
    have d2: "\<forall>c\<in>set ?fp. isDigit c" using assms(2) by (auto dest: in_set_dropD)
    have v: "digitsValue s = digitsValue ?ip * 10 ^ ?m + digitsValue ?fp"
      using digitsValue_append[of ?ip ?fp] by simp
    have nk: "n - ?k = - int ?m" using B by simp
    have "parseUnsigned (layoutDigits s n) =
          Finite ((of_nat (digitsValue ?ip) + of_nat (digitsValue ?fp) / 10 ^ ?m)
                  * pow10 (exponentPart []))"
      unfolding l by (rule parseUnsigned_point) (use ne d1 d2 in simp_all)
    also have "\<dots> = Finite (of_nat (digitsValue s) / 10 ^ ?m)"
      unfolding v by (simp add: pow10_def add_divide_distrib)
    also have "\<dots> = Finite (of_nat (digitsValue s) * pow10 (n - ?k))"
      unfolding nk pow10_neg_nat by simp
    finally show ?thesis .
  next
    case C
    let ?fp = "replicate (nat (- n)) (CHR ''0'') @ s"
    let ?m = "length ?fp"
    have l: "layoutDigits s n = ''0'' @ CHR ''.'' # ?fp @ []"
      using layout_C[of n s] C by simp
    have d1: "\<forall>c\<in>set ''0''. isDigit c" by (simp add: isDigit_def)
    have d2: "\<forall>c\<in>set ?fp. isDigit c" using assms(2) zd by auto
    have v: "digitsValue ?fp = digitsValue s"
      by (simp add: digitsValue_append digitsValue_zeros)
    have z: "digitsValue ''0'' = 0" by (simp add: digitsValue_def digitValue_def)
    have nk: "n - ?k = - int ?m" using C by simp
    have "parseUnsigned (layoutDigits s n) =
          Finite ((of_nat (digitsValue ''0'') + of_nat (digitsValue ?fp) / 10 ^ ?m)
                  * pow10 (exponentPart []))"
      unfolding l by (rule parseUnsigned_point) (use d1 d2 in simp_all)
    also have "\<dots> = Finite (of_nat (digitsValue s) / 10 ^ ?m)"
      unfolding v z by (simp add: pow10_def)
    also have "\<dots> = Finite (of_nat (digitsValue s) * pow10 (n - ?k))"
      unfolding nk pow10_neg_nat by simp
    finally show ?thesis .
  next
    case D
    have l: "layoutDigits s n = s @ ?e" by (rule layout_D[OF D])
    have "parseUnsigned (layoutDigits s n) =
          Finite (of_nat (digitsValue s) * pow10 (exponentPart ?e))"
      unfolding l using exponent_not_digit[of "if n < 0 then ''-'' else ''+''" "digitsOf (nat \<bar>n - 1\<bar>)"]
      by (intro parseUnsigned_plain assms) blast
    then show ?thesis using ex[OF D(1)] D(2) by simp
  next
    case E
    let ?ip = "[hd s]" and ?fp = "tl s"
    let ?m = "length ?fp"
    have l: "layoutDigits s n = ?ip @ CHR ''.'' # ?fp @ ?e"
      using layout_E[OF E] by simp
    have d1: "\<forall>c\<in>set ?ip. isDigit c" using assms by simp
    have d2: "\<forall>c\<in>set ?fp. isDigit c" using assms by (auto dest: list.set_sel(2))
    have v: "digitsValue s = digitsValue ?ip * 10 ^ ?m + digitsValue ?fp"
      using digitsValue_append[of ?ip ?fp] assms(1) by simp
    have nk: "n - ?k = (n - 1) - int ?m" using assms(1) by (cases s) simp_all
    have "parseUnsigned (layoutDigits s n) =
          Finite ((of_nat (digitsValue ?ip) + of_nat (digitsValue ?fp) / 10 ^ ?m)
                  * pow10 (exponentPart ?e))"
      unfolding l using exponent_not_digit[of "if n < 0 then ''-'' else ''+''" "digitsOf (nat \<bar>n - 1\<bar>)"]
      by (intro parseUnsigned_point d1 d2) simp_all
    also have "\<dots> = Finite (of_nat (digitsValue s) / 10 ^ ?m * pow10 (n - 1))"
      unfolding v ex[OF E(1)] by (simp add: add_divide_distrib)
    also have "\<dots> = Finite (of_nat (digitsValue s) * pow10 (n - ?k))"
      unfolding nk pow10_minus_nat by simp
    finally show ?thesis .
  qed
qed

lemma layout_head:
  assumes "s \<noteq> []" and "\<forall>c\<in>set s. isDigit c"
  shows "layoutDigits s n \<noteq> [] \<and> isDigit (hd (layoutDigits s n))"
proof -
  have h: "isDigit (hd s)" using assms by simp
  have z: "isDigit (CHR ''0'')" by (simp add: isDigit_def)
  have t: "0 < n \<Longrightarrow> take (nat n) s \<noteq> [] \<and> hd (take (nat n) s) = hd s"
    using assms(1) by (cases s; cases "nat n") simp_all
  consider (A) "- 5 \<le> n" "n \<le> 21" "int (length s) \<le> n"
    | (B) "- 5 \<le> n" "n \<le> 21" "\<not> int (length s) \<le> n" "0 < n"
    | (C) "- 5 \<le> n" "n \<le> 21" "\<not> int (length s) \<le> n" "\<not> 0 < n"
    | (D) "\<not> (- 5 \<le> n \<and> n \<le> 21)" "int (length s) = 1"
    | (E) "\<not> (- 5 \<le> n \<and> n \<le> 21)" "int (length s) \<noteq> 1"
    by blast
  then show ?thesis
  proof cases
    case A
    show ?thesis unfolding layout_A[OF A] using assms(1) h by simp
  next
    case B
    show ?thesis unfolding layout_B[OF B] using t[OF B(4)] h by simp
  next
    case C
    show ?thesis unfolding layout_C[OF C] using z by simp
  next
    case D
    show ?thesis unfolding layout_D[OF D] using assms(1) h by simp
  next
    case E
    show ?thesis unfolding layout_E[OF E] using h by simp
  qed
qed

lemma layout_subset:
  assumes "s \<noteq> []"
  shows "set (layoutDigits s n) \<subseteq> set s \<union> set ''0.e-+'' \<union> set (digitsOf (nat \<bar>n - 1\<bar>))"
proof -
  have t: "set (take j s) \<subseteq> set s" for j by (rule set_take_subset)
  have d: "set (drop j s) \<subseteq> set s" for j by (rule set_drop_subset)
  have h: "hd s \<in> set s" using assms by simp
  have l: "set (tl s) \<subseteq> set s" by (cases s) auto
  consider (A) "- 5 \<le> n" "n \<le> 21" "int (length s) \<le> n"
    | (B) "- 5 \<le> n" "n \<le> 21" "\<not> int (length s) \<le> n" "0 < n"
    | (C) "- 5 \<le> n" "n \<le> 21" "\<not> int (length s) \<le> n" "\<not> 0 < n"
    | (D) "\<not> (- 5 \<le> n \<and> n \<le> 21)" "int (length s) = 1"
    | (E) "\<not> (- 5 \<le> n \<and> n \<le> 21)" "int (length s) \<noteq> 1"
    by blast
  then show ?thesis
  proof cases
    case A
    show ?thesis unfolding layout_A[OF A] by auto
  next
    case B
    show ?thesis unfolding layout_B[OF B] using t[of "nat n"] d[of "nat n"] by auto
  next
    case C
    show ?thesis unfolding layout_C[OF C] by auto
  next
    case D
    show ?thesis unfolding layout_D[OF D] by auto
  next
    case E
    show ?thesis unfolding layout_E[OF E] using h l by auto
  qed
qed

lemma layout_no_space:
  assumes "s \<noteq> []" and "\<forall>c\<in>set s. isDigit c"
  shows "\<forall>c\<in>set (layoutDigits s n). \<not> isWhiteSpace c"
proof
  fix c assume "c \<in> set (layoutDigits s n)"
  then consider "c \<in> set s" | "c \<in> set ''0.e-+''" | "c \<in> set (digitsOf (nat \<bar>n - 1\<bar>))"
    using layout_subset[OF assms(1), of n] by blast
  then show "\<not> isWhiteSpace c"
  proof cases
    case 1
    then show ?thesis using assms(2) isDigit_other by blast
  next
    case 2
    then show ?thesis by (auto simp: isWhiteSpace_def)
  next
    case 3
    then show ?thesis using digitsOf_digits isDigit_other by blast
  qed
qed

lemma fractionDigits_integer: "fractionDigits x = Some t \<Longrightarrow> \<exists>M::int. x * 10 ^ t = of_int M"
proof (induction t arbitrary: x)
  case 0
  then have "of_int \<lfloor>x\<rfloor> = x"
    by (subst (asm) fractionDigits.simps) (auto split: if_splits simp: bind_eq_Some_conv)
  then show ?case by (metis mult.right_neutral power_0)
next
  case (Suc t)
  then have "fractionDigits (10 * x) = Some t"
    by (subst (asm) fractionDigits.simps) (auto split: if_splits simp: bind_eq_Some_conv)
  from Suc.IH[OF this] obtain M :: int where "10 * x * 10 ^ t = of_int M" by blast
  then have "x * 10 ^ Suc t = of_int M" by (simp add: mult.commute mult.left_commute)
  then show ?case by blast
qed

lemma fractionDigits_decimal: "\<exists>t. fractionDigits (of_int m / 10 ^ p) = Some t"
proof (induction p arbitrary: m)
  case 0
  show ?case by (subst fractionDigits.simps) simp
next
  case (Suc p)
  from Suc[of m] obtain t where t: "fractionDigits (of_int m / 10 ^ p) = Some t" by blast
  have "10 * (of_int m / 10 ^ Suc p) = (of_int m / 10 ^ p :: rat)" by simp
  with t have "fractionDigits (10 * (of_int m / 10 ^ Suc p)) = Some t" by simp
  then show ?case by (subst fractionDigits.simps) simp
qed

lemma toStringPositive_parse:
  assumes "0 < x" and "toStringPositive x = Some str"
  shows "parseUnsigned str = Finite x \<and> (\<forall>c\<in>set str. \<not> isWhiteSpace c) \<and>
         str \<noteq> [] \<and> isDigit (hd str)"
proof -
  obtain t where t: "fractionDigits x = Some t"
    using assms(2) by (auto simp: toStringPositive_def split: option.splits)
  obtain M :: int where M: "x * 10 ^ t = of_int M" using fractionDigits_integer[OF t] by blast
  have "0 < x * 10 ^ t" using assms(1) by simp
  then have Mpos: "0 < M" using M by simp
  define N where "N = nat \<lfloor>x * 10 ^ t\<rfloor>"
  have N: "rat_of_nat N = x * 10 ^ t" and Npos: "0 < N"
    using Mpos by (simp_all add: N_def M)
  define ds where "ds = digitsOf N"
  define s where "s = stripTrailingZeros ds"
  define z where "z = length ds - length s"
  have str: "str = layoutDigits s (int (length ds) - int t)"
    using assms(2) by (simp add: toStringPositive_def t Let_def N_def ds_def s_def)
  have v: "N = digitsValue s * 10 ^ z"
    using strip_value[of ds] digitsValue_digitsOf[of N] by (simp add: ds_def s_def z_def)
  have ne: "s \<noteq> []"
  proof
    assume "s = []"
    then have "N = 0" using v by (simp add: digitsValue_Nil)
    with Npos show False by simp
  qed
  have dg: "\<forall>c\<in>set s. isDigit c"
    using strip_subset[of ds] digitsOf_digits[of N] by (auto simp: s_def ds_def)
  have le: "length s \<le> length ds" using strip_length[of ds] by (simp add: s_def)
  have idx: "int (length ds) - int t - int (length s) = int z - int t"
    using le by (simp add: z_def)
  have "parseUnsigned str = Finite (of_nat (digitsValue s) * pow10 (int z - int t))"
    unfolding str parse_layout[OF ne dg] idx ..
  also have "of_nat (digitsValue s) * pow10 (int z - int t) = rat_of_nat N / 10 ^ t"
    unfolding pow10_diff_nat v by simp
  also have "\<dots> = x" unfolding N by simp
  finally have "parseUnsigned str = Finite x" .
  then show ?thesis
    using layout_head[OF ne dg] layout_no_space[OF ne dg] unfolding str by blast
qed

lemma toStringPositive_fixedPoint:
  "fixedPoint k q \<Longrightarrow> \<exists>str. toStringPositive q = Some str"
proof -
  assume "fixedPoint k q"
  then obtain m :: int where "q = of_int m / 10 ^ COLUMN_WIDTH_PRECISION k"
    unfolding fixedPoint_def by blast
  then obtain t where "fractionDigits q = Some t" using fractionDigits_decimal by blast
  then show ?thesis by (simp add: toStringPositive_def Let_def)
qed

lemma trim_no_space: "\<forall>c\<in>set s. \<not> isWhiteSpace c \<Longrightarrow> trim s = s"
proof -
  assume a: "\<forall>c\<in>set s. \<not> isWhiteSpace c"
  have d: "dropWhile isWhiteSpace xs = xs" if "\<forall>c\<in>set xs. \<not> isWhiteSpace c" for xs
    using that by (cases xs) simp_all
  have "dropWhile isWhiteSpace (rev s) = rev s" using a by (intro d) simp
  then show ?thesis using d[OF a] by (simp add: trim_def)
qed

lemma parseFloat_digit_first:
  "str \<noteq> [] \<Longrightarrow> isDigit (hd str) \<Longrightarrow> parseFloat (Str str) = parseUnsigned str"
  using isDigit_other[of "hd str"] by (cases str) (simp_all add: parseFloat.simps)

lemma parseFloat_minus:
  "str \<noteq> [] \<Longrightarrow> isDigit (hd str) \<Longrightarrow>
   parseFloat (Str (CHR ''-'' # str)) = num_neg (parseUnsigned str)"
  by (simp add: parseFloat.simps isWhiteSpace_def)

text \<open>
  A fixed-point value has a rendering, and the rendering parses back to the value, has no
  white space around it and is not the placeholder.
\<close>

lemma toString_roundtrip:
  assumes "fixedPoint k q"
  shows "\<exists>str. toString (Finite q) = Some str \<and> parseFloat (Str str) = Finite q \<and>
               trim str = str \<and> str \<noteq> ''auto''"
proof -
  consider (zero) "q = 0" | (pos) "0 < q" | (neg) "q < 0" by linarith
  then show ?thesis
  proof cases
    case zero
    have "parseFloat (Str ''0'') = Finite 0" "trim ''0'' = ''0''" by code_simp+
    then show ?thesis using zero by simp
  next
    case pos
    obtain str where s: "toStringPositive q = Some str"
      using toStringPositive_fixedPoint[OF assms] by blast
    from toStringPositive_parse[OF pos s]
    have p: "parseUnsigned str = Finite q" "\<forall>c\<in>set str. \<not> isWhiteSpace c" "str \<noteq> []"
      "isDigit (hd str)" by blast+
    have "str \<noteq> ''auto''" using p(3,4) isDigit_other[of "hd str"] by auto
    then show ?thesis
      using pos s p parseFloat_digit_first[OF p(3,4)] trim_no_space[OF p(2)] by simp
  next
    case neg
    then have pos: "0 < - q" by simp
    obtain str where s: "toStringPositive (- q) = Some str"
      using toStringPositive_fixedPoint[OF fixedPoint_minus[OF assms]] by blast
    from toStringPositive_parse[OF pos s]
    have p: "parseUnsigned str = Finite (- q)" "\<forall>c\<in>set str. \<not> isWhiteSpace c" "str \<noteq> []"
      "isDigit (hd str)" by blast+
    have "\<forall>c\<in>set (CHR ''-'' # str). \<not> isWhiteSpace c" using p(2) by (simp add: isWhiteSpace_def)
    then have "trim (CHR ''-'' # str) = CHR ''-'' # str" by (rule trim_no_space)
    then show ?thesis
      using neg s parseFloat_minus[OF p(3,4)] p(1) by simp
  qed
qed

section \<open>Normalizing rendered widths\<close>

lemma calc_no_auto:
  assumes "\<forall>w\<in>set ws. trim w = w \<and> w \<noteq> ''auto''"
  shows "calculateMissingColumnWidths k ws = map (\<lambda>w. toPrecision k (Str w)) ws"
proof -
  have t: "map trim ws = ws" using assms by (simp add: map_idI)
  have f: "filter (\<lambda>columnWidth. columnWidth = ''auto'') ws = []"
    using assms by (simp add: filter_empty_conv)
  show ?thesis unfolding calculateMissingColumnWidths_def Let_def t f by simp
qed

text \<open>
  Lists of widths that are finite or NaN: their total, the proportional adjustment, and
  the adjustment of a last column that is finite.
\<close>

lemma finiteTotal_append: "finiteTotal (xs @ ys) = finiteTotal xs + finiteTotal ys"
  by (induction xs rule: finiteTotal.induct) simp_all

lemma foldl_num_add_widthOf:
  "foldl num_add (Finite a) (filter (\<lambda>value. value \<noteq> NaN) (map widthOf os)) =
     Finite (a + finiteTotal os)"
  by (induction os arbitrary: a rule: finiteTotal.induct) (simp_all add: add.assoc)

lemma sumArray_widthOf: "sumArray (map Num (map widthOf os)) = Finite (finiteTotal os)"
  unfolding sumArray_Num foldl_num_add_widthOf by simp

lemma all_widthOf:
  "\<forall>c\<in>set cs. c = NaN \<or> (\<exists>q. c = Finite q \<and> P q) \<Longrightarrow>
   \<exists>os. cs = map widthOf os \<and> (\<forall>q. Some q \<in> set os \<longrightarrow> P q)"
proof (induction cs)
  case Nil
  show ?case by simp
next
  case (Cons c cs)
  then obtain os where os: "cs = map widthOf os" "\<forall>q. Some q \<in> set os \<longrightarrow> P q" by auto
  from Cons.prems have "c = NaN \<or> (\<exists>q. c = Finite q \<and> P q)" by simp
  then show ?case
  proof
    assume "c = NaN"
    then show ?thesis by (intro exI[of _ "None # os"]) (use os in simp)
  next
    assume "\<exists>q. c = Finite q \<and> P q"
    then obtain q where q: "c = Finite q" "P q" by blast
    then show ?thesis by (intro exI[of _ "Some q # os"]) (use os in auto)
  qed
qed

lemma toPrecision_widthOf:
  "(\<forall>q. o' = Some q \<longrightarrow> fixedPoint k q) \<Longrightarrow> toPrecision k (Num (widthOf o')) = widthOf o'"
  by (cases o') (simp_all add: toPrecision_special toPrecision_fixedPoint)

lemma rescale_widthOf:
  assumes "t \<noteq> 0"
  shows "map (\<lambda>columnWidth. toPrecision k (Num (num_div (num_mul columnWidth (Finite 100)) (Finite t))))
           (map widthOf os) =
         map widthOf (map (map_option (\<lambda>q. of_int \<lfloor>q * 100 / t * 10 ^ COLUMN_WIDTH_PRECISION k + 1 / 2\<rfloor>
                                  / 10 ^ COLUMN_WIDTH_PRECISION k)) os)"
  using assms by (induction os rule: finiteTotal.induct) (simp_all add: toPrecision_Finite toPrecision_special)

lemma adjustLastColumn_widthOf:
  assumes "\<forall>q. Some q \<in> set (bs @ [Some l]) \<longrightarrow> fixedPoint k q"
  shows "\<exists>rs. adjustLastColumn k (map widthOf (bs @ [Some l])) = map widthOf rs \<and>
              finiteTotal rs = 100 \<and> (\<forall>r. Some r \<in> set rs \<longrightarrow> fixedPoint k r)"
proof -
  let ?os = "bs @ [Some l]"
  let ?l = "l + 100 - finiteTotal ?os"
  have fb: "fixedPoint k (finiteTotal xs)" if "\<forall>q. Some q \<in> set xs \<longrightarrow> fixedPoint k q" for xs
    using that
  proof (induction xs rule: finiteTotal.induct)
    case 1
    show ?case using fixedPoint_of_int[of k 0] by simp
  next
    case (2 os)
    then show ?case by simp
  next
    case (3 q os)
    then show ?case by (simp add: fixedPoint_add)
  qed
  have fl: "fixedPoint k ?l"
  proof -
    have "fixedPoint k l" using assms by simp
    moreover have "fixedPoint k 100" using fixedPoint_of_int[of k 100] by simp
    moreover have "fixedPoint k (- finiteTotal ?os)"
      using fb[OF assms] by (rule fixedPoint_minus)
    ultimately have "fixedPoint k (l + 100 + - finiteTotal ?os)"
      by (intro fixedPoint_add)
    then show ?thesis by simp
  qed
  have "adjustLastColumn k (map widthOf ?os) =
          map widthOf bs @ [toPrecision k (Num (num_sub (num_add (Finite l) (Finite 100))
             (sumArray (map Num (map widthOf ?os)))))]"
    using adjustLastColumn_snoc[of k "map widthOf bs" "Finite l"] by simp
  also have "\<dots> = map widthOf bs @ [toPrecision k (Num (Finite ?l))]"
    by (simp only: sumArray_widthOf) (simp add: num_sub_def)
  also have "\<dots> = map widthOf (bs @ [Some ?l])"
    by (simp add: toPrecision_fixedPoint[OF fl])
  finally have "adjustLastColumn k (map widthOf ?os) = map widthOf (bs @ [Some ?l])" .
  moreover have "finiteTotal (bs @ [Some ?l]) = 100" by (simp add: finiteTotal_append)
  moreover have "\<forall>r. Some r \<in> set (bs @ [Some ?l]) \<longrightarrow> fixedPoint k r" using assms fl by auto
  ultimately show ?thesis by blast
qed

lemma calc_widthOf_fixedPoint:
  "calculateMissingColumnWidths k ws = map widthOf os \<Longrightarrow> \<forall>q. Some q \<in> set os \<longrightarrow> fixedPoint k q"
proof (intro allI impI)
  fix q assume c: "calculateMissingColumnWidths k ws = map widthOf os" and "Some q \<in> set os"
  then have "widthOf (Some q) \<in> widthOf ` set os" by (intro imageI)
  then have "Finite q \<in> set (calculateMissingColumnWidths k ws)" using c by simp
  then obtain v where "Finite q = toPrecision k v" using calc_entries by blast
  then show "fixedPoint k q" using fixedPoint_toPrecision[of k v q] by simp
qed

lemma normalize_widthOf:
  assumes c: "calculateMissingColumnWidths k ws = map widthOf (bs @ [Some l])"
    and t: "finiteTotal (bs @ [Some l]) \<noteq> 0"
  shows "\<exists>rs. normalizeColumnWidths k ws = map widthOf rs \<and> finiteTotal rs = 100 \<and>
              (\<forall>r. Some r \<in> set rs \<longrightarrow> fixedPoint k r)"
proof (cases "finiteTotal (bs @ [Some l]) = 100")
  case True
  then have "normalizeColumnWidths k ws = map widthOf (bs @ [Some l])"
    unfolding normalizeColumnWidths_def c Let_def sumArray_widthOf by simp
  with True calc_widthOf_fixedPoint[OF c] show ?thesis by blast
next
  case False
  let ?t = "finiteTotal (bs @ [Some l])"
  define f :: "rat \<Rightarrow> rat" where "f = (\<lambda>q. of_int \<lfloor>q * 100 / ?t * 10 ^ COLUMN_WIDTH_PRECISION k + 1 / 2\<rfloor>
                                  / 10 ^ COLUMN_WIDTH_PRECISION k)"
  have fr: "fixedPoint k (f x)" for x unfolding f_def by (rule fixedPoint_rounded)
  have "normalizeColumnWidths k ws =
          adjustLastColumn k
            (map (\<lambda>columnWidth. toPrecision k (Num (num_div (num_mul columnWidth (Finite 100)) (Finite ?t))))
               (map widthOf (bs @ [Some l])))"
    unfolding normalizeColumnWidths_def c Let_def sumArray_widthOf using False by (simp only: number.inject if_False)
  then have "normalizeColumnWidths k ws =
      adjustLastColumn k (map widthOf (map (map_option f) (bs @ [Some l])))"
    unfolding f_def by (simp only: rescale_widthOf[OF t])
  then have n: "normalizeColumnWidths k ws =
      adjustLastColumn k (map widthOf (map (map_option f) bs @ [Some (f l)]))"
    by simp
  have "\<forall>q. Some q \<in> set (map (map_option f) bs @ [Some (f l)]) \<longrightarrow> fixedPoint k q"
  proof (intro allI impI)
    fix q assume "Some q \<in> set (map (map_option f) bs @ [Some (f l)])"
    then have "Some q \<in> map_option f ` set bs \<or> q = f l" by auto
    then show "fixedPoint k q"
    proof
      assume "Some q \<in> map_option f ` set bs"
      then obtain x where "Some q = map_option f x" by blast
      then obtain y where "q = f y" by (cases x) auto
      then show ?thesis using fr by simp
    next
      assume "q = f l"
      then show ?thesis using fr by simp
    qed
  qed
  from adjustLastColumn_widthOf[OF this] n show ?thesis by simp
qed

lemma adjustLastColumn_replicate_NaN:
  "adjustLastColumn k (replicate n NaN) = replicate n NaN"
proof (cases n)
  case 0
  then show ?thesis by (simp add: adjustLastColumn_Nil)
next
  case (Suc m)
  have "replicate (Suc m) NaN = replicate m NaN @ [NaN]" by (simp add: replicate_append_same)
  then show ?thesis
    using adjustLastColumn_snoc[of k "replicate m NaN" NaN] Suc
    by (simp add: toPrecision_special num_sub_def del: replicate_Suc)
qed

lemma normalize_zero:
  assumes c: "calculateMissingColumnWidths k ws = map widthOf os"
    and z: "\<forall>q. Some q \<in> set os \<longrightarrow> q = 0"
  shows "normalizeColumnWidths k ws = replicate (length ws) NaN"
proof -
  have t: "finiteTotal os = 0" using z by (induction os rule: finiteTotal.induct) simp_all
  have r: "map (\<lambda>columnWidth. toPrecision k (Num (num_div (num_mul columnWidth (Finite 100)) (Finite 0))))
           (map widthOf os) = replicate (length os) NaN"
    using z by (induction os rule: finiteTotal.induct) (simp_all add: toPrecision_special)
  have l: "length os = length ws" using calc_length[of k ws] c by simp
  have "normalizeColumnWidths k ws =
          adjustLastColumn k
            (map (\<lambda>columnWidth. toPrecision k (Num (num_div (num_mul columnWidth (Finite 100)) (Finite 0))))
               (map widthOf os))"
    unfolding normalizeColumnWidths_def c Let_def sumArray_widthOf t by simp
  then show ?thesis by (simp only: r l adjustLastColumn_replicate_NaN)
qed

lemma finiteTotal_zero:
  assumes "\<forall>q. Some q \<in> set os \<longrightarrow> 0 \<le> q" and "finiteTotal os = 0"
  shows "\<forall>q. Some q \<in> set os \<longrightarrow> q = 0"
proof -
  have nn: "0 \<le> finiteTotal xs" if "\<forall>q. Some q \<in> set xs \<longrightarrow> 0 \<le> q" for xs
    using that by (induction xs rule: finiteTotal.induct) simp_all
  show ?thesis using assms
  proof (induction os rule: finiteTotal.induct)
    case 1
    show ?case by simp
  next
    case (2 os)
    then show ?case by simp
  next
    case (3 q os)
    then have "0 \<le> q" "0 \<le> finiteTotal os" using nn[of os] by simp_all
    with 3 have "q = 0" "finiteTotal os = 0" by simp_all
    with 3 show ?case by simp
  qed
qed

lemma stringify_widthOf:
  "\<forall>r. Some r \<in> set rs \<longrightarrow> fixedPoint k r \<Longrightarrow>
   \<exists>strs. map toString (map widthOf rs) = map Some strs \<and>
          (\<forall>w\<in>set strs. trim w = w \<and> w \<noteq> ''auto'') \<and>
          map (\<lambda>w. parseFloat (Str w)) strs = map widthOf rs"
proof (induction rs)
  case Nil
  show ?case by simp
next
  case (Cons r rs)
  then obtain strs where s: "map toString (map widthOf rs) = map Some strs"
    "\<forall>w\<in>set strs. trim w = w \<and> w \<noteq> ''auto''"
    "map (\<lambda>w. parseFloat (Str w)) strs = map widthOf rs" by auto
  show ?case
  proof (cases r)
    case None
    have n: "parseFloat (Str ''NaN'') = NaN" "trim ''NaN'' = ''NaN''" by code_simp+
    show ?thesis
      by (rule exI[of _ "''NaN'' # strs"]) (use s n None in simp)
  next
    case (Some q)
    with Cons.prems have "fixedPoint k q" by simp
    from toString_roundtrip[OF this] obtain str where t: "toString (Finite q) = Some str"
      "parseFloat (Str str) = Finite q" "trim str = str" "str \<noteq> ''auto''" by blast
    show ?thesis
      by (rule exI[of _ "str # strs"]) (use s t Some in simp)
  qed
qed

lemma calc_rendered:
  assumes f: "\<forall>r. Some r \<in> set rs \<longrightarrow> fixedPoint k r"
    and strs: "\<forall>w\<in>set strs. trim w = w \<and> w \<noteq> ''auto''"
      "map (\<lambda>w. parseFloat (Str w)) strs = map widthOf rs"
  shows "calculateMissingColumnWidths k strs = map widthOf rs"
proof -
  have "map (\<lambda>w. toPrecision k (Str w)) strs =
        map (\<lambda>n. toPrecision k (Num n)) (map (\<lambda>w. parseFloat (Str w)) strs)"
    using toPrecision_parse[OF refl, of k] by (simp add: comp_def)
  also have "\<dots> = map (\<lambda>n. toPrecision k (Num n)) (map widthOf rs)" by (simp only: strs(2))
  also have "\<dots> = map widthOf rs"
  proof -
    have "toPrecision k (Num (widthOf x)) = widthOf x" if "x \<in> set rs" for x
      using that f by (intro toPrecision_widthOf) blast
    then show ?thesis by simp
  qed
  finally show ?thesis by (simp only: calc_no_auto[OF strs(1)])
qed

lemma normalize_rendered_widthOf:
  assumes s: "finiteTotal rs = 100"
    and f: "\<forall>r. Some r \<in> set rs \<longrightarrow> fixedPoint k r"
    and strs: "\<forall>w\<in>set strs. trim w = w \<and> w \<noteq> ''auto''"
      "map (\<lambda>w. parseFloat (Str w)) strs = map widthOf rs"
  shows "normalizeColumnWidths k strs = map widthOf rs"
  unfolding normalizeColumnWidths_def calc_rendered[OF f strs] Let_def sumArray_widthOf s by simp

text \<open>
  Normalizing the rendering of a normalized list, when every resolved width is NaN or a
  finite number that is not negative, and the last one is finite.
\<close>

lemma normalize_idempotent:
  assumes c: "calculateMissingColumnWidths k ws = map widthOf (bs @ [Some l])"
    and nn: "\<forall>q. Some q \<in> set (bs @ [Some l]) \<longrightarrow> 0 \<le> q"
  shows "\<exists>strs. map toString (normalizeColumnWidths k ws) = map Some strs \<and>
           normalizeColumnWidths k strs = normalizeColumnWidths k ws"
proof (cases "finiteTotal (bs @ [Some l]) = 0")
  case True
  let ?n = "length ws"
  have z: "\<forall>q. Some q \<in> set (bs @ [Some l]) \<longrightarrow> q = 0" by (rule finiteTotal_zero[OF nn True])
  have n: "normalizeColumnWidths k ws = map widthOf (replicate ?n None)"
    using normalize_zero[OF c z] by simp
  have "\<forall>r. Some r \<in> set (replicate ?n None) \<longrightarrow> fixedPoint k r" by simp
  from stringify_widthOf[OF this] obtain strs where
    s: "map toString (map widthOf (replicate ?n None)) = map Some strs"
       "\<forall>w\<in>set strs. trim w = w \<and> w \<noteq> ''auto''"
       "map (\<lambda>w. parseFloat (Str w)) strs = map widthOf (replicate ?n None)" by blast
  have len: "length strs = ?n" using arg_cong[OF s(1), of length] by simp
  have "calculateMissingColumnWidths k strs = map widthOf (replicate ?n None)"
    by (rule calc_rendered[OF _ s(2,3)]) simp
  from normalize_zero[OF this] have "normalizeColumnWidths k strs = replicate ?n NaN"
    using len by simp
  with n s(1) show ?thesis by (intro exI[of _ strs]) simp
next
  case False
  from normalize_widthOf[OF c False] obtain rs where
    r: "normalizeColumnWidths k ws = map widthOf rs" "finiteTotal rs = 100"
       "\<forall>r. Some r \<in> set rs \<longrightarrow> fixedPoint k r" by blast
  from stringify_widthOf[OF r(3)] obtain strs where
    s: "map toString (map widthOf rs) = map Some strs"
       "\<forall>w\<in>set strs. trim w = w \<and> w \<noteq> ''auto''"
       "map (\<lambda>w. parseFloat (Str w)) strs = map widthOf rs" by blast
  have "normalizeColumnWidths k strs = map widthOf rs"
    by (rule normalize_rendered_widthOf[OF r(2,3) s(2,3)])
  with r(1) s(1) show ?thesis by (intro exI[of _ strs]) simp
qed

lemma widthOf_snoc:
  assumes "map widthOf os = cs @ [Finite q]"
  shows "\<exists>bs. os = bs @ [Some q]"
proof -
  from assms have "os \<noteq> []" by auto
  then obtain bs o' where os: "os = bs @ [o']" by (metis rev_exhaust)
  with assms have "widthOf o' = Finite q" by simp
  then have "o' = Some q" by (cases o') simp_all
  with os show ?thesis by simp
qed

lemma floor_rat_numeral: "\<lfloor>(numeral a / numeral b :: rat)\<rfloor> = numeral a div numeral b"
  by (metis floor_divide_of_int_eq of_int_numeral)

lemma replicate_numeral: "replicate (numeral j) x = x # replicate (pred_numeral j) x"
  by (simp add: numeral_eq_Suc)

lemmas toString_eval = toStringPositive_def layoutDigits_def fractionDigits.simps digitChar_def
  stripTrailingZeros_def digitsOf.simps Let_def floor_rat_numeral replicate_numeral

lemma rendered_samples:
  "toString (Finite (16667 / 1000)) = Some ''16.667''"
  "toString (Finite (66667 / 1000)) = Some ''66.667''"
  "toString (Finite (33333 / 500)) = Some ''66.666''"
  by (simp_all add: toString_eval)

section \<open>The claims\<close>

text \<open>
  Claim C1 says that the widths returned for a list of finite non-negative raw widths of
  length at least 1 add up to exactly 100.  The list with the single width 0 is such a
  list, for every choice of the constants: the total of the resolved widths is 0, the
  proportional adjustment divides 0 by 0, and the result is the list with the single
  element NaN, whose sum is 0.
\<close>

theorem normalizeColumnWidths_zero_total:
  "normalizeColumnWidths k [''0''] = [NaN] \<and>
   sumArray (map Num (normalizeColumnWidths k [''0''])) = Finite 0 \<and>
   sumArray (map Num (normalizeColumnWidths k [''0''])) \<noteq> Finite 100"
proof -
  have p: "parseFloat (Str ''0'') = Finite (of_int 0)" by code_simp
  have tr: "trim ''0'' = ''0''" by code_simp
  have "toPrecision k (Str ''0'') = toPrecision k (Num (Finite (of_int 0)))"
    by (rule toPrecision_parse[OF p])
  then have t: "toPrecision k (Str ''0'') = Finite 0"
    using toPrecision_of_int[of k 0] by simp
  have c: "calculateMissingColumnWidths k [''0''] = [Finite 0]"
    by (simp add: calc_single_fixed tr t)
  have s0: "sumArray [Num (Finite 0)] = Finite 0" "sumArray [Num NaN] = Finite 0"
    by (simp_all add: sumArray_def)
  have n: "normalizeColumnWidths k [''0''] = [NaN]"
    by (simp add: normalizeColumnWidths_def c s0 Let_def adjustLastColumn_single
        toPrecision_special num_sub_def)
  show ?thesis by (simp add: n s0)
qed

text \<open>
  Claim C2, amended.  Take a precision of at most 6 digits and a list of at most 1000 raw
  widths, each of which resolves to NaN or to a finite width from 0 to \<open>10 ^ 9\<close>, and the
  last of which resolves to a finite width.  Then every normalized width has a rendering
  as a string, and normalizing the list of these strings gives the normalized widths
  again.  The last column is the one that takes up the rounding difference, so it has to
  be a number; a width that does not parse may stand anywhere before it.
\<close>

theorem normalizeColumnWidths_idempotent_on_nonnegative_widths:
  "COLUMN_WIDTH_PRECISION k \<le> 6 \<and> length ws \<le> 1000 \<and>
   (\<forall>c\<in>set (calculateMissingColumnWidths k ws).
      c = NaN \<or> (\<exists>q. c = Finite q \<and> 0 \<le> q \<and> q \<le> 10 ^ 9)) \<and>
   (\<exists>cs q. calculateMissingColumnWidths k ws = cs @ [Finite q]) \<longrightarrow>
   (\<exists>strs. map toString (normalizeColumnWidths k ws) = map Some strs \<and>
           normalizeColumnWidths k strs = normalizeColumnWidths k ws)"
proof
  assume h: "COLUMN_WIDTH_PRECISION k \<le> 6 \<and> length ws \<le> 1000 \<and>
   (\<forall>c\<in>set (calculateMissingColumnWidths k ws).
      c = NaN \<or> (\<exists>q. c = Finite q \<and> 0 \<le> q \<and> q \<le> 10 ^ 9)) \<and>
   (\<exists>cs q. calculateMissingColumnWidths k ws = cs @ [Finite q])"
  then have "\<forall>c\<in>set (calculateMissingColumnWidths k ws).
      c = NaN \<or> (\<exists>q. c = Finite q \<and> 0 \<le> q \<and> q \<le> 10 ^ 9)" by blast
  from all_widthOf[OF this] obtain os where
    os: "calculateMissingColumnWidths k ws = map widthOf os"
        "\<forall>q. Some q \<in> set os \<longrightarrow> 0 \<le> q \<and> q \<le> 10 ^ 9" by blast
  from h obtain cs q where "calculateMissingColumnWidths k ws = cs @ [Finite q]" by blast
  with os(1) have "map widthOf os = cs @ [Finite q]" by simp
  from widthOf_snoc[OF this] obtain bs where bs: "os = bs @ [Some q]" by blast
  have c: "calculateMissingColumnWidths k ws = map widthOf (bs @ [Some q])"
    using os(1) bs by simp
  have nn: "\<forall>r. Some r \<in> set (bs @ [Some q]) \<longrightarrow> 0 \<le> r" using os(2) bs by blast
  show "\<exists>strs. map toString (normalizeColumnWidths k ws) = map Some strs \<and>
           normalizeColumnWidths k strs = normalizeColumnWidths k ws"
    by (rule normalize_idempotent[OF c nn])
qed

text \<open>
  The amended C2 at the sample constants on the raw widths \<^verbatim>\<open>x\<close>, 1, 1, 4: they resolve
  to NaN, 1, 1 and 4, and normalize to NaN, 16.667, 16.667 and 66.666.
\<close>

theorem normalizeColumnWidths_idempotent_on_nonnegative_widths_witness:
  "COLUMN_WIDTH_PRECISION sampleConstants \<le> 6 \<and> length [''x'', ''1'', ''1'', ''4''] \<le> 1000 \<and>
   calculateMissingColumnWidths sampleConstants [''x'', ''1'', ''1'', ''4''] =
     [NaN, Finite 1, Finite 1] @ [Finite 4] \<and>
   (0::rat) \<le> 1 \<and> (1::rat) \<le> 10 ^ 9 \<and> (0::rat) \<le> 4 \<and> (4::rat) \<le> 10 ^ 9 \<and>
   map toString (normalizeColumnWidths sampleConstants [''x'', ''1'', ''1'', ''4'']) =
     map Some [''NaN'', ''16.667'', ''16.667'', ''66.666''] \<and>
   normalizeColumnWidths sampleConstants [''NaN'', ''16.667'', ''16.667'', ''66.666''] =
     normalizeColumnWidths sampleConstants [''x'', ''1'', ''1'', ''4'']"
proof -
  have c: "calculateMissingColumnWidths sampleConstants [''x'', ''1'', ''1'', ''4''] =
     [NaN, Finite 1, Finite 1, Finite 4]" by code_simp
  have n: "normalizeColumnWidths sampleConstants [''x'', ''1'', ''1'', ''4''] =
       [NaN, Finite (16667 / 1000), Finite (16667 / 1000), Finite (33333 / 500)]" by code_simp
  have m: "normalizeColumnWidths sampleConstants [''NaN'', ''16.667'', ''16.667'', ''66.666''] =
       [NaN, Finite (16667 / 1000), Finite (16667 / 1000), Finite (33333 / 500)]" by code_simp
  have p: "COLUMN_WIDTH_PRECISION sampleConstants = 3" by (simp add: sampleConstants_def)
  have b: "\<forall>c\<in>set (calculateMissingColumnWidths sampleConstants [''x'', ''1'', ''1'', ''4'']).
      c = NaN \<or> (\<exists>q. c = Finite q \<and> 0 \<le> q \<and> q \<le> 10 ^ 9)" by (simp add: c)
  have l: "\<exists>cs q. calculateMissingColumnWidths sampleConstants [''x'', ''1'', ''1'', ''4''] = cs @ [Finite q]"
    by (intro exI[of _ "[NaN, Finite 1, Finite 1]"] exI[of _ 4]) (simp add: c)
  from normalizeColumnWidths_idempotent_on_nonnegative_widths[of sampleConstants "[''x'', ''1'', ''1'', ''4'']"] p b l
  have "\<exists>strs. map toString (normalizeColumnWidths sampleConstants [''x'', ''1'', ''1'', ''4'']) = map Some strs \<and>
           normalizeColumnWidths sampleConstants strs = normalizeColumnWidths sampleConstants [''x'', ''1'', ''1'', ''4'']"
    by simp
  then show ?thesis
    by (simp add: c n m p rendered_samples del: toString.simps(4))
qed

text \<open>
  Claim C2 as stated fails on a list whose last width does not parse: the last column
  cannot take up the rounding difference, the normalized widths 16.667, 16.667, 66.667
  and NaN add up to 100.001, and normalizing their renderings scales them once more.
\<close>

theorem normalizeColumnWidths_not_idempotent:
  "map toString (normalizeColumnWidths sampleConstants [''1'', ''1'', ''4'', ''x'']) =
     map Some [''16.667'', ''16.667'', ''66.667'', ''NaN''] \<and>
   normalizeColumnWidths sampleConstants [''16.667'', ''16.667'', ''66.667'', ''NaN''] \<noteq>
     normalizeColumnWidths sampleConstants [''1'', ''1'', ''4'', ''x'']"
proof -
  have n: "normalizeColumnWidths sampleConstants [''1'', ''1'', ''4'', ''x''] =
       [Finite (16667 / 1000), Finite (16667 / 1000), Finite (66667 / 1000), NaN]" by code_simp
  have m: "normalizeColumnWidths sampleConstants [''16.667'', ''16.667'', ''66.667'', ''NaN''] =
       [Finite (16667 / 1000), Finite (16667 / 1000), Finite (33333 / 500), NaN]" by code_simp
  show ?thesis by (simp add: n m rendered_samples del: toString.simps(4))
qed

text \<open>
  Claim C3.  Every entry that is \<^verbatim>\<open>auto\<close> after trimming is replaced by the maximum of
  the remaining width (100 minus the sum of the other values that parse) divided by the
  number of placeholders, and the minimum width, and is then rounded like every other
  entry.  That share is never less than the minimum width, and the rounded share is never
  less than the rounded minimum width.  For the raw widths 90, \<^verbatim>\<open>auto\<close>,
  \<^verbatim>\<open>auto\<close> both placeholders resolve to the rounded maximum of 5 and the minimum
  width, which is not less than the minimum width when that has no more digits than the
  precision keeps, and the normalized widths add up to 100.
\<close>

theorem placeholders_get_share_or_floor:
  "(i < length ws \<and> trim (ws ! i) = ''auto'' \<longrightarrow>
      calculateMissingColumnWidths k ws ! i =
        toPrecision k (Num (Math_max
          (num_div (num_sub (Finite 100)
               (sumArray (map Str (filter (\<lambda>columnWidth. columnWidth \<noteq> ''auto'') (map trim ws)))))
             (Finite (of_nat (length (filter (\<lambda>columnWidth. columnWidth = ''auto'') (map trim ws))))))
          (Finite (COLUMN_MIN_WIDTH_AS_PERCENTAGE k))))) \<and>
   (i < length ws \<and> trim (ws ! i) \<noteq> ''auto'' \<longrightarrow>
      calculateMissingColumnWidths k ws ! i = toPrecision k (Str (trim (ws ! i)))) \<and>
   \<not> num_lt (Math_max remaining (Finite (COLUMN_MIN_WIDTH_AS_PERCENTAGE k)))
        (Finite (COLUMN_MIN_WIDTH_AS_PERCENTAGE k)) \<and>
   \<not> num_lt (toPrecision k (Num (Math_max remaining (Finite (COLUMN_MIN_WIDTH_AS_PERCENTAGE k)))))
        (toPrecision k (Num (Finite (COLUMN_MIN_WIDTH_AS_PERCENTAGE k)))) \<and>
   calculateMissingColumnWidths k [''90'', ''auto'', ''auto''] =
     [Finite 90,
      toPrecision k (Num (Math_max (Finite 5) (Finite (COLUMN_MIN_WIDTH_AS_PERCENTAGE k)))),
      toPrecision k (Num (Math_max (Finite 5) (Finite (COLUMN_MIN_WIDTH_AS_PERCENTAGE k))))] \<and>
   (fixedPoint k (COLUMN_MIN_WIDTH_AS_PERCENTAGE k) \<longrightarrow>
      \<not> num_lt (calculateMissingColumnWidths k [''90'', ''auto'', ''auto''] ! 1)
           (Finite (COLUMN_MIN_WIDTH_AS_PERCENTAGE k)) \<and>
      \<not> num_lt (calculateMissingColumnWidths k [''90'', ''auto'', ''auto''] ! 2)
           (Finite (COLUMN_MIN_WIDTH_AS_PERCENTAGE k))) \<and>
   sumArray (map Num (normalizeColumnWidths k [''90'', ''auto'', ''auto''])) = Finite 100"
  using calc_nth_auto[of i ws k] calc_nth_fixed[of i ws k]
    Math_max_not_less[of remaining "COLUMN_MIN_WIDTH_AS_PERCENTAGE k"]
    rounded_share_not_less[of k remaining "COLUMN_MIN_WIDTH_AS_PERCENTAGE k"]
    calc_90_auto_auto[of k] normalize_90_auto_auto[of k] calc_90_auto_auto_floor[of k]
  by blast

text \<open>
  C3 at the sample constants: the placeholders of 90, \<^verbatim>\<open>auto\<close>, \<^verbatim>\<open>auto\<close> resolve
  to 5 each, and those of 98, \<^verbatim>\<open>auto\<close>, \<^verbatim>\<open>auto\<close>, where 1 percent remains for each,
  to the minimum width 5.
\<close>

theorem placeholders_get_share_or_floor_witness:
  "(1::nat) < length [''90'', ''auto'', ''auto''] \<and> trim ([''90'', ''auto'', ''auto''] ! 1) = ''auto'' \<and>
   calculateMissingColumnWidths sampleConstants [''90'', ''auto'', ''auto''] ! 1 = Finite 5 \<and>
   (0::nat) < length [''90'', ''auto'', ''auto''] \<and> trim ([''90'', ''auto'', ''auto''] ! 0) \<noteq> ''auto'' \<and>
   calculateMissingColumnWidths sampleConstants [''90'', ''auto'', ''auto''] ! 0 =
     toPrecision sampleConstants (Str (trim ([''90'', ''auto'', ''auto''] ! 0))) \<and>
   fixedPoint sampleConstants (COLUMN_MIN_WIDTH_AS_PERCENTAGE sampleConstants) \<and>
   \<not> num_lt (calculateMissingColumnWidths sampleConstants [''90'', ''auto'', ''auto''] ! 1)
        (Finite (COLUMN_MIN_WIDTH_AS_PERCENTAGE sampleConstants)) \<and>
   normalizeColumnWidths sampleConstants [''90'', ''auto'', ''auto''] = [Finite 90, Finite 5, Finite 5] \<and>
   calculateMissingColumnWidths sampleConstants [''98'', ''auto'', ''auto''] = [Finite 98, Finite 5, Finite 5]"
proof -
  have a: "trim ([''90'', ''auto'', ''auto''] ! 1) = ''auto''"
    "trim ([''90'', ''auto'', ''auto''] ! 0) \<noteq> ''auto''" by code_simp+
  have c: "calculateMissingColumnWidths sampleConstants [''90'', ''auto'', ''auto''] = [Finite 90, Finite 5, Finite 5]"
    "normalizeColumnWidths sampleConstants [''90'', ''auto'', ''auto''] = [Finite 90, Finite 5, Finite 5]"
    "calculateMissingColumnWidths sampleConstants [''98'', ''auto'', ''auto''] = [Finite 98, Finite 5, Finite 5]"
    by code_simp+
  have fp: "fixedPoint sampleConstants (COLUMN_MIN_WIDTH_AS_PERCENTAGE sampleConstants)"
    using fixedPoint_of_int[of sampleConstants 5] by (simp add: sampleConstants_def)
  show ?thesis
    using placeholders_get_share_or_floor[of 1 "[''90'', ''auto'', ''auto'']" sampleConstants NaN]
      placeholders_get_share_or_floor[of 0 "[''90'', ''auto'', ''auto'']" sampleConstants NaN]
      a c fp
    by (simp add: num_lt_def)
qed

text \<open>
  Claim C4, amended.  For a precision of at most 6 digits, a list with a single raw width
  normalizes to the list with the single element 100 when the width is the placeholder
  \<^verbatim>\<open>auto\<close> and the minimum column width is at most \<open>10 ^ 9\<close>, and when the width parses
  to a finite number whose magnitude is at least one unit of the last digit kept and at
  most \<open>10 ^ 9\<close>; in particular the lists with the single width \<^verbatim>\<open>auto\<close> and with the
  single width 37 do.
\<close>

theorem single_column_normalizes_to_100:
  "(COLUMN_WIDTH_PRECISION k \<le> 6 \<and> COLUMN_MIN_WIDTH_AS_PERCENTAGE k \<le> 10 ^ 9 \<and> trim w = ''auto'' \<longrightarrow>
      normalizeColumnWidths k [w] = [Finite 100]) \<and>
   (COLUMN_WIDTH_PRECISION k \<le> 6 \<and> trim w \<noteq> ''auto'' \<and> parseFloat (Str (trim w)) = Finite x \<and>
    1 / 10 ^ COLUMN_WIDTH_PRECISION k \<le> \<bar>x\<bar> \<and> \<bar>x\<bar> \<le> 10 ^ 9 \<longrightarrow>
      normalizeColumnWidths k [w] = [Finite 100]) \<and>
   (COLUMN_WIDTH_PRECISION k \<le> 6 \<and> COLUMN_MIN_WIDTH_AS_PERCENTAGE k \<le> 10 ^ 9 \<longrightarrow>
      normalizeColumnWidths k [''auto''] = [Finite 100]) \<and>
   (COLUMN_WIDTH_PRECISION k \<le> 6 \<longrightarrow> normalizeColumnWidths k [''37''] = [Finite 100])"
proof -
  have auto: "normalizeColumnWidths k [w] = [Finite 100]" if "trim w = ''auto''" for w
    using that by (intro normalize_single[where q = "rat_of_int \<lfloor>max 100 (COLUMN_MIN_WIDTH_AS_PERCENTAGE k) * 10 ^ COLUMN_WIDTH_PRECISION k + 1 / 2\<rfloor> / 10 ^ COLUMN_WIDTH_PRECISION k"])
      (simp_all add: calc_single_auto toPrecision_Finite round_pos)
  have fixed: "normalizeColumnWidths k [w] = [Finite 100]"
    if "trim w \<noteq> ''auto''" "parseFloat (Str (trim w)) = Finite x"
      "1 / 10 ^ COLUMN_WIDTH_PRECISION k \<le> \<bar>x\<bar>" for w x
  proof -
    let ?q = "rat_of_int \<lfloor>x * 10 ^ COLUMN_WIDTH_PRECISION k + 1 / 2\<rfloor> / 10 ^ COLUMN_WIDTH_PRECISION k"
    have "toPrecision k (Str (trim w)) = Finite ?q"
      using toPrecision_parse[OF that(2), of k] by (simp add: toPrecision_Finite)
    then have "calculateMissingColumnWidths k [w] = [Finite ?q]"
      using that(1) by (simp add: calc_single_fixed)
    moreover have "?q \<noteq> 0" using round_nonzero[OF that(3)] by simp
    ultimately show ?thesis by (rule normalize_single)
  qed
  have p37: "parseFloat (Str (trim ''37'')) = Finite 37" "trim ''37'' \<noteq> ''auto''" by code_simp+
  have "1 / (10::rat) ^ COLUMN_WIDTH_PRECISION k \<le> 1" by (simp add: divide_le_eq)
  then have "1 / 10 ^ COLUMN_WIDTH_PRECISION k \<le> (37 :: rat)" by linarith
  then have "1 / 10 ^ COLUMN_WIDTH_PRECISION k \<le> \<bar>37 :: rat\<bar>" by simp
  from fixed[OF p37(2) p37(1) this] have "normalizeColumnWidths k [''37''] = [Finite 100]" .
  with auto[of w] fixed[of w x] auto[of "''auto''"] trim_auto show ?thesis by simp
qed

text \<open>The amended C4 on a placeholder with white space around it and on the width 12.5%.\<close>

theorem single_column_normalizes_to_100_witness:
  "COLUMN_WIDTH_PRECISION sampleConstants \<le> 6 \<and> COLUMN_MIN_WIDTH_AS_PERCENTAGE sampleConstants \<le> 10 ^ 9 \<and>
   trim '' auto '' = ''auto'' \<and> normalizeColumnWidths sampleConstants ['' auto ''] = [Finite 100] \<and>
   trim ''12.5%'' \<noteq> ''auto'' \<and> parseFloat (Str (trim ''12.5%'')) = Finite (25 / 2) \<and>
   1 / 10 ^ COLUMN_WIDTH_PRECISION sampleConstants \<le> \<bar>25 / 2 :: rat\<bar> \<and> \<bar>25 / 2 :: rat\<bar> \<le> 10 ^ 9 \<and>
   normalizeColumnWidths sampleConstants [''12.5%''] = [Finite 100]"
proof -
  have a: "trim '' auto '' = ''auto''" by code_simp
  have b: "trim ''12.5%'' \<noteq> ''auto''" by code_simp
  have c: "parseFloat (Str (trim ''12.5%'')) = Finite (25 / 2)" by code_simp
  show ?thesis
    using single_column_normalizes_to_100[of sampleConstants "'' auto ''" "25 / 2"]
      single_column_normalizes_to_100[of sampleConstants "''12.5%''" "25 / 2"] a b c
    by (simp add: sampleConstants_def)
qed

text \<open>
  Claim C4 as stated fails on a single width that does not parse: the result is the list
  with the single element NaN.
\<close>

theorem single_column_not_always_100:
  "normalizeColumnWidths sampleConstants [''x''] = [NaN] \<and>
   normalizeColumnWidths sampleConstants [''x''] \<noteq> [Finite 100]"
  by code_simp

text \<open>
  Claim C5.  The removal of a whole table has no reference position, so
  \<^verbatim>\<open>getAffectedTables\<close> returns the empty set for a batch whose only record is such a
  removal, and in any batch the record leaves the set collected so far as it is.
\<close>

theorem getAffectedTables_skips_removed_table:
  "referencePosition model (Remove ''table'' pos) = None \<and>
   getAffectedTables [Remove ''table'' pos] model = Inr [] \<and>
   affectedTablesLoop model (Remove ''table'' pos # changes) affectedTables =
     affectedTablesLoop model changes affectedTables"
  by (simp add: getAffectedTables_def)



text \<open>
  Claim C7.  For a cell with an entry in the column-index map the left edge is the entry,
  and the right edge is the left edge plus the column span minus 1, where the span is the
  \<^verbatim>\<open>colspan\<close> attribute of the cell, and 1 when the cell has none.  A column span is
  the number of columns that the cell occupies, at least 1; the code also takes 1 for an
  attribute that is 0 or NaN.  For an index \<open>l\<close> and a span \<open>n\<close> that are integers with a sum
  of at most \<open>2 ^ 53\<close>, which binary64 adds exactly, the right edge is \<open>l + n - 1\<close>; a cell
  at the index 2 with the span 3 has the edges 2 and 4.
\<close>

theorem getColumnIndex_edges:
  "(columnIndexMap cell = Some i \<longrightarrow> leftEdge (getColumnIndex cell columnIndexMap) = Some i) \<and>
   (columnIndexMap cell = Some i \<and> colspanAttribute cell = None \<longrightarrow>
      rightEdge (getColumnIndex cell columnIndexMap) = num_sub (num_add i (Finite 1)) (Finite 1)) \<and>
   (columnIndexMap cell = Some i \<and> colspanAttribute cell = Some c \<and> c \<noteq> Finite 0 \<and> c \<noteq> NaN \<longrightarrow>
      rightEdge (getColumnIndex cell columnIndexMap) = num_sub (num_add i c) (Finite 1)) \<and>
   (columnIndexMap cell = Some i \<and> (colspanAttribute cell = Some (Finite 0) \<or> colspanAttribute cell = Some NaN) \<longrightarrow>
      rightEdge (getColumnIndex cell columnIndexMap) = num_sub (num_add i (Finite 1)) (Finite 1)) \<and>
   (columnIndexMap cell = Some (Finite (of_nat l)) \<and> colspanAttribute cell = None \<and> l < 2 ^ 53 \<longrightarrow>
      getColumnIndex cell columnIndexMap =
        \<lparr> leftEdge = Some (Finite (of_nat l)), rightEdge = Finite (of_nat l) \<rparr>) \<and>
   (columnIndexMap cell = Some (Finite (of_nat l)) \<and> colspanAttribute cell = Some (Finite (of_nat n)) \<and>
    1 \<le> n \<and> l + n \<le> 2 ^ 53 \<longrightarrow>
      getColumnIndex cell columnIndexMap =
        \<lparr> leftEdge = Some (Finite (of_nat l)), rightEdge = Finite (of_nat (l + n - 1)) \<rparr>) \<and>
   (columnIndexMap cell = Some (Finite 2) \<and> colspanAttribute cell = Some (Finite 3) \<longrightarrow>
      getColumnIndex cell columnIndexMap = \<lparr> leftEdge = Some (Finite 2), rightEdge = Finite 4 \<rparr>)"
proof -
  have "rat_of_nat l + rat_of_nat n - 1 = rat_of_nat (l + n - 1)" if "1 \<le> n"
    using that by (simp add: of_nat_diff)
  then show ?thesis by (auto simp: getColumnIndex_def num_sub_def)
qed

text \<open>C7 on a cell at the index 2 that spans 3 columns, and on a cell without the attribute.\<close>

theorem getColumnIndex_edges_witness:
  "[Element 3 ''tableCell'' None (Some (Finite 3)) [] \<mapsto> Finite 2] (Element 3 ''tableCell'' None (Some (Finite 3)) []) = Some (Finite 2) \<and>
   colspanAttribute (Element 3 ''tableCell'' None (Some (Finite 3)) []) = Some (Finite 3) \<and>
   Finite 3 \<noteq> Finite 0 \<and> Finite 3 \<noteq> NaN \<and> (1::nat) \<le> 3 \<and> (2::nat) + 3 \<le> 2 ^ 53 \<and>
   getColumnIndex (Element 3 ''tableCell'' None (Some (Finite 3)) [])
     [Element 3 ''tableCell'' None (Some (Finite 3)) [] \<mapsto> Finite 2] =
     \<lparr> leftEdge = Some (Finite 2), rightEdge = Finite 4 \<rparr> \<and>
   [Element 5 ''tableCell'' None None [] \<mapsto> Finite 2] (Element 5 ''tableCell'' None None []) = Some (Finite 2) \<and>
   colspanAttribute (Element 5 ''tableCell'' None None []) = None \<and> (2::nat) < 2 ^ 53 \<and>
   getColumnIndex (Element 5 ''tableCell'' None None [])
     [Element 5 ''tableCell'' None None [] \<mapsto> Finite 2] =
     \<lparr> leftEdge = Some (Finite 2), rightEdge = Finite 2 \<rparr>"
  using getColumnIndex_edges[of "[Element 3 ''tableCell'' None (Some (Finite 3)) [] \<mapsto> Finite 2]"
      "Element 3 ''tableCell'' None (Some (Finite 3)) []" "Finite 2" "Finite 3" 2 3]
    getColumnIndex_edges[of "[Element 5 ''tableCell'' None None [] \<mapsto> Finite 2]"
      "Element 5 ''tableCell'' None None []" "Finite 2" "Finite 1" 2 1]
  by simp

text \<open>
  Claim C8.  \<^verbatim>\<open>clamp(number, min, max)\<close> returns the lower bound when
  \<^verbatim>\<open>number <= min\<close>, otherwise the upper bound when \<^verbatim>\<open>number >= max\<close>, otherwise
  the number, and in each of the three branches the value returned has gone through
  \<^verbatim>\<open>toPrecision\<close>.  When the bounds are in order the upper bound is returned for every
  \<^verbatim>\<open>number >= max\<close>.  The value returned is rounded: a finite result has at most
  \<^verbatim>\<open>COLUMN_WIDTH_PRECISION\<close> digits after the decimal point, and for bounds in order it
  is less than one unit of the last digit away from the number clamped to the bounds.
  For a precision \<open>p\<close> of at most 6 digits the lower bound \<open>10 + 4 / 10 ^ (p + 1)\<close> is
  rounded down to 10, the upper bound \<open>90 - 4 / 10 ^ (p + 1)\<close> is rounded up to 90 and the
  number \<open>50 + 6 / 10 ^ (p + 1)\<close> is rounded up to \<open>50 + 1 / 10 ^ p\<close>, and
  \<^verbatim>\<open>clamp(5, 10, 90)\<close> is 10, \<^verbatim>\<open>clamp(95, 10, 90)\<close> is 90 and
  \<^verbatim>\<open>clamp(50, 10, 90)\<close> is 50.  At the sample constants \<^verbatim>\<open>clamp(5, 10.12345, 90)\<close>
  is 10.123.
\<close>

theorem clamp_returns_rounded_bound:
  "(num_le number mn \<longrightarrow> clamp k number mn mx = toPrecision k (Num mn)) \<and>
   (\<not> num_le number mn \<and> num_ge number mx \<longrightarrow> clamp k number mn mx = toPrecision k (Num mx)) \<and>
   (num_le mn mx \<and> num_ge number mx \<longrightarrow> clamp k number mn mx = toPrecision k (Num mx)) \<and>
   (\<not> num_le number mn \<and> \<not> num_ge number mx \<longrightarrow>
      clamp k number mn mx = toPrecision k (Num number)) \<and>
   (clamp k number mn mx = Finite q \<longrightarrow> fixedPoint k q) \<and>
   (COLUMN_WIDTH_PRECISION k \<le> 6 \<and> b \<le> c \<and> \<bar>b\<bar> \<le> 10 ^ 9 \<and> \<bar>c\<bar> \<le> 10 ^ 9 \<longrightarrow>
      (\<exists>r. clamp k (Finite a) (Finite b) (Finite c) = Finite r \<and>
           \<bar>r - max b (min a c)\<bar> * 10 ^ COLUMN_WIDTH_PRECISION k < 1)) \<and>
   (COLUMN_WIDTH_PRECISION k \<le> 6 \<longrightarrow>
      clamp k (Finite 5) (Finite (10 + 4 / 10 ^ (COLUMN_WIDTH_PRECISION k + 1))) (Finite 90) = Finite 10 \<and>
      clamp k (Finite 95) (Finite 10) (Finite (90 - 4 / 10 ^ (COLUMN_WIDTH_PRECISION k + 1))) = Finite 90 \<and>
      clamp k (Finite (50 + 6 / 10 ^ (COLUMN_WIDTH_PRECISION k + 1))) (Finite 10) (Finite 90) =
        Finite (50 + 1 / 10 ^ COLUMN_WIDTH_PRECISION k) \<and>
      clamp k (Finite 5) (Finite 10) (Finite 90) = Finite 10 \<and>
      clamp k (Finite 95) (Finite 10) (Finite 90) = Finite 90 \<and>
      clamp k (Finite 50) (Finite 10) (Finite 90) = Finite 50) \<and>
   clamp sampleConstants (Finite 5) (Finite (1012345 / 100000)) (Finite 90) = Finite (10123 / 1000)"
proof -
  let ?p = "COLUMN_WIDTH_PRECISION k"
  have eq: "mn = mx" if "num_le mn mx" "num_ge number mx" "num_le number mn"
    using that num_le_antisym[of mn mx] num_le_trans[of mx number mn] by (simp add: num_ge_def)
  have i: "toPrecision k (Num (Finite 10)) = Finite 10" "toPrecision k (Num (Finite 90)) = Finite 90"
    "toPrecision k (Num (Finite 50)) = Finite 50"
    using toPrecision_of_int[of k 10] toPrecision_of_int[of k 90] toPrecision_of_int[of k 50]
    by simp_all
  have branches: "(num_le number mn \<longrightarrow> clamp k number mn mx = toPrecision k (Num mn)) \<and>
   (\<not> num_le number mn \<and> num_ge number mx \<longrightarrow> clamp k number mn mx = toPrecision k (Num mx)) \<and>
   (num_le mn mx \<and> num_ge number mx \<longrightarrow> clamp k number mn mx = toPrecision k (Num mx)) \<and>
   (\<not> num_le number mn \<and> \<not> num_ge number mx \<longrightarrow>
      clamp k number mn mx = toPrecision k (Num number))"
    using eq by (auto simp: clamp_def num_ge_def)
  have fp: "fixedPoint k q" if "clamp k number mn mx = Finite q"
    using that fixedPoint_toPrecision[of k _ q] by (auto simp: clamp_def split: if_splits)
  have close: "\<exists>r. clamp k (Finite a) (Finite b) (Finite c) = Finite r \<and>
           \<bar>r - max b (min a c)\<bar> * 10 ^ ?p < 1" if "b \<le> c"
  proof -
    consider (lo) "a \<le> b" | (hi) "\<not> a \<le> b" "c \<le> a" | (mid) "\<not> a \<le> b" "\<not> c \<le> a" by blast
    then show ?thesis
    proof cases
      case lo
      then have "max b (min a c) = b" using that by simp
      then show ?thesis using toPrecision_close[of k b] lo by (auto simp: clamp_def)
    next
      case hi
      then have "max b (min a c) = c" using that by simp
      then show ?thesis using toPrecision_close[of k c] hi by (auto simp: clamp_def num_ge_def)
    next
      case mid
      then have "max b (min a c) = a" by simp
      then show ?thesis using toPrecision_close[of k a] mid by (auto simp: clamp_def num_ge_def)
    qed
  qed
  have pw: "(10::rat) ^ (?p + 1) = 10 * 10 ^ ?p" by simp
  have e1: "toPrecision k (Num (Finite (10 + 4 / 10 ^ (?p + 1)))) = Finite 10"
  proof -
    have eq: "(10::rat) + 4 / 10 ^ (?p + 1) = (of_int (10 * 10 ^ ?p) + 4 / 10) / 10 ^ ?p"
      by (simp add: pw field_simps)
    have r: "toPrecision k (Num (Finite ((of_int (10 * 10 ^ ?p) + 4 / 10) / 10 ^ ?p))) =
        Finite (of_int (10 * 10 ^ ?p) / 10 ^ ?p)" by (rule toPrecision_near) simp_all
    have v: "rat_of_int (10 * 10 ^ ?p) / 10 ^ ?p = 10" by simp
    show ?thesis by (simp only: eq r v)
  qed
  have e2: "toPrecision k (Num (Finite (90 - 4 / 10 ^ (?p + 1)))) = Finite 90"
  proof -
    have eq: "(90::rat) - 4 / 10 ^ (?p + 1) = (of_int (90 * 10 ^ ?p) + - (4 / 10)) / 10 ^ ?p"
      by (simp add: pw field_simps)
    have r: "toPrecision k (Num (Finite ((of_int (90 * 10 ^ ?p) + - (4 / 10)) / 10 ^ ?p))) =
        Finite (of_int (90 * 10 ^ ?p) / 10 ^ ?p)" by (rule toPrecision_near) simp_all
    have v: "rat_of_int (90 * 10 ^ ?p) / 10 ^ ?p = 90" by simp
    show ?thesis by (simp only: eq r v)
  qed
  have e3: "toPrecision k (Num (Finite (50 + 6 / 10 ^ (?p + 1)))) = Finite (50 + 1 / 10 ^ ?p)"
  proof -
    have eq: "(50::rat) + 6 / 10 ^ (?p + 1) = (of_int (50 * 10 ^ ?p + 1) + - (4 / 10)) / 10 ^ ?p"
      by (simp add: pw field_simps)
    have r: "toPrecision k (Num (Finite ((of_int (50 * 10 ^ ?p + 1) + - (4 / 10)) / 10 ^ ?p))) =
        Finite (of_int (50 * 10 ^ ?p + 1) / 10 ^ ?p)" by (rule toPrecision_near) simp_all
    have v: "rat_of_int (50 * 10 ^ ?p + 1) / 10 ^ ?p = 50 + 1 / 10 ^ ?p"
      by (simp add: field_simps)
    show ?thesis by (simp only: eq r v)
  qed
  have pos: "0 < 4 / (10::rat) ^ (?p + 1)" "0 < 6 / (10::rat) ^ (?p + 1)" by simp_all
  have "(10::rat) ^ 1 \<le> 10 ^ (?p + 1)" by (intro power_increasing) simp_all
  then have le6: "6 / (10::rat) ^ (?p + 1) \<le> 6 / 10" by (intro divide_left_mono) simp_all
  have c1: "clamp k (Finite 5) (Finite (10 + 4 / 10 ^ (?p + 1))) (Finite 90) = Finite 10"
  proof -
    have h: "num_le (Finite 5) (Finite (10 + 4 / 10 ^ (?p + 1)))"
      unfolding num_le.simps using pos(1) by linarith
    show ?thesis by (simp only: clamp_def h if_True e1)
  qed
  have c2: "clamp k (Finite 95) (Finite 10) (Finite (90 - 4 / 10 ^ (?p + 1))) = Finite 90"
  proof -
    have h1: "\<not> num_le (Finite 95) (Finite 10)" by simp
    have h2: "num_ge (Finite 95) (Finite (90 - 4 / 10 ^ (?p + 1)))"
      unfolding num_ge_def num_le.simps using pos(1) by linarith
    show ?thesis by (simp only: clamp_def h1 h2 if_True if_False e2)
  qed
  have c3: "clamp k (Finite (50 + 6 / 10 ^ (?p + 1))) (Finite 10) (Finite 90) = Finite (50 + 1 / 10 ^ ?p)"
  proof -
    have h1: "\<not> num_le (Finite (50 + 6 / 10 ^ (?p + 1))) (Finite 10)"
      unfolding num_le.simps using pos(2) by linarith
    have h2: "\<not> num_ge (Finite (50 + 6 / 10 ^ (?p + 1))) (Finite 90)"
      unfolding num_ge_def num_le.simps using le6 by linarith
    show ?thesis by (simp only: clamp_def h1 h2 if_False e3)
  qed
  have c4: "clamp k (Finite 5) (Finite 10) (Finite 90) = Finite 10"
    "clamp k (Finite 95) (Finite 10) (Finite 90) = Finite 90"
    "clamp k (Finite 50) (Finite 10) (Finite 90) = Finite 50"
    by (simp_all add: clamp_def num_ge_def i)
  have s: "clamp sampleConstants (Finite 5) (Finite (1012345 / 100000)) (Finite 90) = Finite (10123 / 1000)"
    by code_simp
  show ?thesis
    using branches fp close c1 c2 c3 c4 s by blast
qed

text \<open>
  The three branches of C8 at 5, 95 and 50 with the bounds 10 and 90, and the rounding at
  the sample constants of 50.4567 to 50.457, of the bounds 10.0004 and 89.9996 to 10 and
  90, and of 50.0006 to 50.001.
\<close>

theorem clamp_returns_rounded_bound_witness:
  "num_le (Finite 5) (Finite 10) \<and>
   clamp sampleConstants (Finite 5) (Finite 10) (Finite 90) = toPrecision sampleConstants (Num (Finite 10)) \<and>
   \<not> num_le (Finite 95) (Finite 10) \<and> num_ge (Finite 95) (Finite 90) \<and> num_le (Finite 10) (Finite 90) \<and>
   clamp sampleConstants (Finite 95) (Finite 10) (Finite 90) = toPrecision sampleConstants (Num (Finite 90)) \<and>
   \<not> num_le (Finite 50) (Finite 10) \<and> \<not> num_ge (Finite 50) (Finite 90) \<and>
   clamp sampleConstants (Finite 50) (Finite 10) (Finite 90) = toPrecision sampleConstants (Num (Finite 50)) \<and>
   COLUMN_WIDTH_PRECISION sampleConstants \<le> 6 \<and> (10::rat) \<le> 90 \<and> \<bar>10::rat\<bar> \<le> 10 ^ 9 \<and> \<bar>90::rat\<bar> \<le> 10 ^ 9 \<and>
   clamp sampleConstants (Finite (504567 / 10000)) (Finite 10) (Finite 90) = Finite (50457 / 1000) \<and>
   fixedPoint sampleConstants (50457 / 1000) \<and>
   \<bar>50457 / 1000 - max 10 (min (504567 / 10000) 90) :: rat\<bar> * 10 ^ COLUMN_WIDTH_PRECISION sampleConstants < 1 \<and>
   clamp sampleConstants (Finite 5) (Finite (100004 / 10000)) (Finite 90) = Finite 10 \<and>
   clamp sampleConstants (Finite 95) (Finite 10) (Finite (899996 / 10000)) = Finite 90 \<and>
   clamp sampleConstants (Finite (500006 / 10000)) (Finite 10) (Finite 90) = Finite (50001 / 1000)"
proof -
  have v: "clamp sampleConstants (Finite (504567 / 10000)) (Finite 10) (Finite 90) = Finite (50457 / 1000)"
    by code_simp
  have p: "COLUMN_WIDTH_PRECISION sampleConstants = 3" by (simp add: sampleConstants_def)
  show ?thesis
    using clamp_returns_rounded_bound[of "Finite 5" "Finite 10" sampleConstants "Finite 90" 10 10 90 5]
      clamp_returns_rounded_bound[of "Finite 95" "Finite 10" sampleConstants "Finite 90" 90 10 90 95]
      clamp_returns_rounded_bound[of "Finite 50" "Finite 10" sampleConstants "Finite 90" 50 10 90 50]
      clamp_returns_rounded_bound[of "Finite (504567 / 10000)" "Finite 10" sampleConstants "Finite 90"
        "50457 / 1000" 10 90 "504567 / 10000"] v
    by (simp add: num_ge_def p)
qed

text \<open>
  Claim C9.  \<^verbatim>\<open>sumArray\<close> parses every element and adds up, from 0 and from left to
  right, the parsed values of the elements that do not parse to NaN; an element that
  parses to NaN does not change the sum wherever it stands; the sum of a list whose
  elements all parse to NaN, and of the empty list, is 0.  The function is total: there is
  no input on which it raises.
\<close>

theorem sumArray_skips_unparseable:
  "sumArray array =
     foldl (\<lambda>result item. num_add result item) (Finite 0)
       (map parseFloat (filter (\<lambda>value. parseFloat value \<noteq> NaN) array)) \<and>
   (parseFloat v = NaN \<longrightarrow> sumArray (xs @ v # ys) = sumArray (xs @ ys)) \<and>
   ((\<forall>v\<in>set array. parseFloat v = NaN) \<longrightarrow> sumArray array = Finite 0) \<and>
   sumArray [] = Finite 0"
  using sumArray_filter[of array] sumArray_append_NaN[of v xs ys] sumArray_all_NaN[of array]
  by (simp add: sumArray_def)

text \<open>C9 on a list with one unparseable element and on a list of unparseable elements.\<close>

theorem sumArray_skips_unparseable_witness:
  "parseFloat (Str ''x'') = NaN \<and>
   sumArray ([Str ''10''] @ Str ''x'' # [Str ''2.5'']) = sumArray ([Str ''10''] @ [Str ''2.5'']) \<and>
   sumArray ([Str ''10''] @ [Str ''2.5'']) = Finite (25 / 2) \<and>
   parseFloat (Str ''auto'') = NaN \<and> parseFloat (Str '''') = NaN \<and> parseFloat (Num NaN) = NaN \<and>
   sumArray [Str ''auto'', Str ''x'', Str '''', Num NaN] = Finite 0"
  using sumArray_skips_unparseable[of "[Str ''auto'', Str ''x'', Str '''', Num NaN]" "Str ''x''" "[Str ''10'']" "[Str ''2.5'']"]
  by (simp add: parse_samples sumArray_def)

text \<open>
  Claim C10.  For every list of raw widths the resolved list and the normalized list have
  the length of the input, no element of the result is the placeholder \<^verbatim>\<open>auto\<close>, and
  every resolved width is a number returned by \<^verbatim>\<open>toPrecision\<close>.
\<close>

theorem normalizeColumnWidths_length_and_numbers:
  "length (calculateMissingColumnWidths k ws) = length ws \<and>
   length (normalizeColumnWidths k ws) = length ws \<and>
   (\<forall>v\<in>set (map Num (normalizeColumnWidths k ws)). v \<noteq> Str ''auto'') \<and>
   (\<forall>c\<in>set (calculateMissingColumnWidths k ws). \<exists>v. c = toPrecision k v)"
  using calc_entries[of _ k ws] by (auto simp: calc_length normalize_length)

text \<open>C10 on a list with two placeholders.\<close>

theorem normalizeColumnWidths_length_and_numbers_witness:
  "normalizeColumnWidths sampleConstants [''20'', '' auto'', ''auto '', ''40''] =
     [Finite 20, Finite 20, Finite 20, Finite 40] \<and>
   length (normalizeColumnWidths sampleConstants [''20'', '' auto'', ''auto '', ''40'']) =
     length [''20'', '' auto'', ''auto '', ''40''] \<and>
   Str ''auto'' \<notin>
     set (map Num (normalizeColumnWidths sampleConstants [''20'', '' auto'', ''auto '', ''40'']))"
proof -
  have e: "normalizeColumnWidths sampleConstants [''20'', '' auto'', ''auto '', ''40''] =
     [Finite 20, Finite 20, Finite 20, Finite 40]" by code_simp
  show ?thesis
    using normalizeColumnWidths_length_and_numbers[of sampleConstants "[''20'', '' auto'', ''auto '', ''40'']"] e
    by simp
qed

end
